theory Spec2Isabelle
  imports Complex_Main "HOL-Library.Word" "HOL-Library.Log_Nat"
begin

section \<open>Conventions of the embedding\<close>

text \<open>
  The codec is Python over numpy arrays. A one-dimensional array is a list, a
  two-dimensional array is the list of its rows. Python integers are \<^typ>\<open>int\<close>; the
  elements of an integer array of numpy are machine words.
  The wavelet filters are float arrays whose taps are dyadic fractions, applied to
  integer pixels: every product and every sum of the two filter passes is a multiple
  of \<open>1/64\<close>, which a double holds exactly as long as it stays below \<open>2^53 / 64\<close>, so
  the floats of the filter passes are modelled by \<^typ>\<open>rat\<close>. The division by the
  quantization divisor is not exact in a double: there the model rounds as IEEE 754
  does (\<open>float64\<close> below).
  An exception is a value of type \<open>error\<close>; a function that may raise returns
  \<open>error + 'a\<close>, with \<open>Inl\<close> for the exception.
\<close>

datatype error =
  IndexError | ValueError | AssertionError | AttributeError | OverflowError | NonFinite

type_synonym int16 = "16 word"

type_synonym int64 = "64 word"

section \<open>The boundary-extended FIR filter (encoder_2000.py)\<close>

text \<open>
  A Python slice \<open>xs[start:stop]\<close> never raises: a negative bound counts from the
  end, and every bound is clamped into \<open>0..len(xs)\<close>.
\<close>

definition slice_bound :: "nat \<Rightarrow> int \<Rightarrow> nat" where
  "slice_bound n i = (if i < 0 then nat (int n + i) else min n (nat i))"

definition py_slice :: "'a list \<Rightarrow> int \<Rightarrow> int \<Rightarrow> 'a list" where
  "py_slice xs start stop =
     (let lo = slice_bound (length xs) start; hi = slice_bound (length xs) stop
      in take (hi - lo) (drop lo xs))"

text \<open>
  \<open>np.convolve(a, v, 'valid')\<close>, as numpy defines it: the longer operand comes
  first, an empty operand raises ValueError, and the result is the correlation of
  \<open>a\<close> with the reversed \<open>v\<close> at every offset where \<open>v\<close> lies inside \<open>a\<close>.
\<close>

definition correlate_valid :: "rat list \<Rightarrow> rat list \<Rightarrow> rat list" where
  "correlate_valid a v =
     map (\<lambda>k. \<Sum>j\<leftarrow>[0..<length v]. a ! (k + j) * v ! j) [0..<length a + 1 - length v]"

definition convolve_valid :: "rat list \<Rightarrow> rat list \<Rightarrow> error + rat list" where
  "convolve_valid a v =
     (let (a', v') = (if length a < length v then (v, a) else (a, v))
      in if a' = [] then Inl ValueError
         else if v' = [] then Inl ValueError
         else Inr (correlate_valid a' (rev v')))"

text \<open>
  \<^verbatim>\<open>
  left_pad_len = len(taps) - filter_centre - 1
  right_pad_len = filter_centre
  arr = np.concatenate(
      (array[1:1+left_pad_len][::-1], array,
       array[-right_pad_len-1:-1][::-1]))
  return np.convolve(arr, taps[::-1], 'valid')
  \<close>
\<close>

definition lfilter :: "rat list \<Rightarrow> rat list \<Rightarrow> int \<Rightarrow> error + rat list" where
  "lfilter taps array filter_centre =
     (let left_pad_len = int (length taps) - filter_centre - 1;
          right_pad_len = filter_centre;
          arr = rev (py_slice array 1 (1 + left_pad_len)) @ array @
                rev (py_slice array (- right_pad_len - 1) (- 1))
      in convolve_valid arr (rev taps))"

text \<open>
  The filter as the specification words it. The mirror extension puts the samples
  at indices \<open>1..l\<close>, reversed, before the sequence and the \<open>r\<close> samples before the
  last one, reversed, after it; the true convolution of \<open>a\<close> with a kernel \<open>v\<close>
  is \<open>(a * v)[n] = \<Sum>m. v[m] a[n - m]\<close>, kept where the kernel lies inside \<open>a\<close>.
\<close>

definition mirror_extend :: "nat \<Rightarrow> nat \<Rightarrow> 'a list \<Rightarrow> 'a list" where
  "mirror_extend l r xs =
     map (\<lambda>i. xs ! (l - i)) [0..<l] @ xs @ map (\<lambda>i. xs ! (length xs - 2 - i)) [0..<r]"

definition true_convolution_valid :: "rat list \<Rightarrow> rat list \<Rightarrow> rat list" where
  "true_convolution_valid a v =
     map (\<lambda>n. \<Sum>m\<leftarrow>[0..<length v]. v ! m * a ! (n + (length v - 1) - m))
       [0..<length a + 1 - length v]"

text \<open>The least length the specification allows: more than either pad length.\<close>

definition lfilter_min_length :: "rat list \<Rightarrow> int \<Rightarrow> int" where
  "lfilter_min_length taps filter_centre =
     max (int (length taps) - filter_centre - 1) filter_centre + 1"

text \<open>The two kernels of \<open>dwt\<close> and their centre indices.\<close>

definition LPF :: "rat list" where
  "LPF = [- (1 / 8), 1 / 4, 3 / 4, 1 / 4, - (1 / 8)]"

definition LPF_center :: int where
  "LPF_center = 2"

definition HPF :: "rat list" where
  "HPF = [- (1 / 2), 1, - (1 / 2)]"

definition HPF_center :: int where
  "HPF_center = 2"

section \<open>Run-length decoding (decoder.py)\<close>

text \<open>
  \<^verbatim>\<open>
  serialized = []
  i = 0
  while i < len(rlcoded):
      if rlcoded[i] == 0:
          serialized.extend([0]*(rlcoded[i+1]+1))
          i += 2
      else:
          serialized.append(rlcoded[i])
          i += 1
  return np.asarray(serialized)
  \<close>
  The loop is a recursion on the index \<open>i\<close> with the list built so far. The read
  \<open>rlcoded[i+1]\<close> raises IndexError when \<open>i+1\<close> is past the end. Python's
  \<open>[0]*k\<close> is the empty list for \<open>k \<le> 0\<close>, which is \<open>replicate (nat k) 0\<close>.
\<close>

function run_length_loop :: "int list \<Rightarrow> nat \<Rightarrow> int list \<Rightarrow> error + int list" where
  "run_length_loop rlcoded i serialized =
     (if i < length rlcoded then
        (if rlcoded ! i = 0 then
           (if i + 1 < length rlcoded
            then run_length_loop rlcoded (i + 2)
                   (serialized @ replicate (nat (rlcoded ! (i + 1) + 1)) 0)
            else Inl IndexError)
         else run_length_loop rlcoded (i + 1) (serialized @ [rlcoded ! i]))
      else Inr serialized)"
  by pat_completeness auto
termination
  by (relation "measure (\<lambda>(rlcoded, i, serialized). length rlcoded - i)") auto

declare run_length_loop.simps [simp del]

definition run_length_decode :: "int list \<Rightarrow> error + int list" where
  "run_length_decode rlcoded = run_length_loop rlcoded 0 []"

text \<open>
  The decoder as the specification words it: a left-to-right scan in which a \<open>0\<close>
  token and the token \<open>n\<close> after it stand for \<open>n + 1\<close> zeros and any other token
  stands for itself.
\<close>

fun rl_expand :: "int list \<Rightarrow> int list" where
  "rl_expand [] = []"
| "rl_expand [x] = [x]"
| "rl_expand (x # n # rest) =
     (if x = 0 then replicate (nat (n + 1)) 0 @ rl_expand rest
      else x # rl_expand (n # rest))"

text \<open>Every marker \<open>0\<close> met by the scan is followed by a count, a token \<open>n \<ge> 0\<close>.\<close>

fun rl_wellformed :: "int list \<Rightarrow> bool" where
  "rl_wellformed [] = True"
| "rl_wellformed [x] = (x \<noteq> 0)"
| "rl_wellformed (x # n # rest) =
     (if x = 0 then 0 \<le> n \<and> rl_wellformed rest else rl_wellformed (n # rest))"

text \<open>The number of literal (non-zero) tokens and the counts of the marker pairs.\<close>

fun rl_literals :: "int list \<Rightarrow> nat" where
  "rl_literals [] = 0"
| "rl_literals [x] = (if x = 0 then 0 else 1)"
| "rl_literals (x # n # rest) =
     (if x = 0 then rl_literals rest else 1 + rl_literals (n # rest))"

fun rl_counts :: "int list \<Rightarrow> int list" where
  "rl_counts [] = []"
| "rl_counts [x] = []"
| "rl_counts (x # n # rest) =
     (if x = 0 then n # rl_counts rest else rl_counts (n # rest))"

text \<open>The scan ends on a marker \<open>0\<close> that has no token after it.\<close>

fun rl_trailing_marker :: "int list \<Rightarrow> bool" where
  "rl_trailing_marker [] = False"
| "rl_trailing_marker [x] = (x = 0)"
| "rl_trailing_marker (x # n # rest) =
     (if x = 0 then rl_trailing_marker rest else rl_trailing_marker (n # rest))"

section \<open>Quantization (encoder_2000.py)\<close>

text \<open>
  \<open>np.round\<close> rounds to the nearest integer and a tie to the even neighbour;
  \<open>.astype(int)\<close> then reads the integral float as an integer.
\<close>

definition np_round :: "rat \<Rightarrow> int" where
  "np_round x =
     (let f = \<lfloor>x\<rfloor>; r = x - of_int f
      in if r < 1 / 2 then f
         else if 1 / 2 < r then f + 1
         else if even f then f else f + 1)"

text \<open>
  The double nearest to a real number (IEEE 754 binary64, round to nearest, ties to
  even): for \<open>2^e \<le> |x| < 2^(e+1)\<close> the doubles around \<open>x\<close> are the multiples of
  \<open>2^(e - 52)\<close>, and below \<open>2^(-1022)\<close> the multiples of \<open>2^(-1074)\<close>. The exponent is
  read off the bit lengths of numerator and denominator. The upper end of the
  exponent range (overflow to infinity above \<open>2^1024\<close>) is not modelled.
\<close>

definition exponent :: "rat \<Rightarrow> int" where
  "exponent x =
     (let (p, q) = quotient_of \<bar>x\<bar>; e = bitlen p - bitlen q
      in if 2 powi e \<le> \<bar>x\<bar> then e else e - 1)"

definition float64 :: "rat \<Rightarrow> rat" where
  "float64 x =
     (if x = 0 then 0
      else let ulp = 2 powi (max (exponent x) (- 1022) - 52)
           in of_int (np_round (x / ulp)) * ulp)"

text \<open>
  One entry of \<open>np.round(filtered_image[i] / quantization_Array[i]).astype(int)\<close>
  in \<open>dwt\<close>, for a non-zero divisor: the entry \<open>v\<close> is a double, the divisor (a Python
  int) is converted to a double, the quotient is rounded to a double, and that is
  rounded to an integer. \<open>.astype(int)\<close> yields a 64-bit integer; a quotient
  beyond that range is outside the model.
\<close>

definition quantize :: "rat \<Rightarrow> int \<Rightarrow> int" where
  "quantize v d = np_round (float64 (v / float64 (of_int d)))"

section \<open>Single-level decomposition (encoder_2000.py)\<close>

subsection \<open>Arrays, views and assignments\<close>

text \<open>
  \<open>dwt\<close> allocates six arrays, keeps references to slices of four of them in a list
  and writes into the arrays afterwards. A numpy slice is a view: it shares the
  memory of the array it was taken from. The model keeps the arrays in a store,
  named as the source names them, and a view is the name of its base array with the
  row and column indices it selects; reading a view reads the store.
\<close>

datatype array = image_array | LL | LH | HL | HH | LowPass_rows | HighPass_rows

type_synonym store = "array \<Rightarrow> rat list list"

record view =
  base :: array
  view_rows :: "nat list"
  view_cols :: "nat list"

definition read_view :: "store \<Rightarrow> view \<Rightarrow> rat list list" where
  "read_view s v = map (\<lambda>r. map (\<lambda>c. s (base v) ! r ! c) (view_cols v)) (view_rows v)"

text \<open>\<open>a[::2]\<close> keeps the entries at positions 0, 2, 4, ...\<close>

fun stride2 :: "'a list \<Rightarrow> 'a list" where
  "stride2 [] = []"
| "stride2 [x] = [x]"
| "stride2 (x # y # xs) = x # stride2 xs"

definition zeros :: "nat \<Rightarrow> nat \<Rightarrow> rat list list" where
  "zeros nrow ncol = replicate nrow (replicate ncol 0)"

definition shape :: "'a list list \<Rightarrow> nat \<times> nat" where
  "shape M = (length M, case M of [] \<Rightarrow> 0 | row # _ \<Rightarrow> length row)"

definition column :: "'a list list \<Rightarrow> nat \<Rightarrow> 'a list" where
  "column M j = map (\<lambda>row. row ! j) M"

text \<open>
  Assigning a vector to a row or a column of \<open>n\<close> entries follows numpy's
  broadcasting: a vector of \<open>n\<close> entries is stored as it is, a vector of one entry
  fills the target, any other length raises ValueError.
\<close>

definition broadcast :: "nat \<Rightarrow> rat list \<Rightarrow> error + rat list" where
  "broadcast n vec =
     (if length vec = n then Inr vec
      else if length vec = 1 then Inr (replicate n (hd vec))
      else Inl ValueError)"

text \<open>
  A statement takes the store to the store it leaves behind and the exception it
  raised, if any. \<open>assign_row X i rhs\<close> is \<open>X[i, :] = rhs\<close> and \<open>assign_col X j rhs\<close> is
  \<open>X[:, j] = rhs\<close>; the right-hand side is evaluated first.
\<close>

type_synonym stmt = "store \<Rightarrow> store \<times> error option"

definition assign_row :: "array \<Rightarrow> nat \<Rightarrow> (store \<Rightarrow> error + rat list) \<Rightarrow> stmt" where
  "assign_row X i rhs s =
     (case rhs s of
        Inl e \<Rightarrow> (s, Some e)
      | Inr vec \<Rightarrow>
          (case broadcast (length (s X ! i)) vec of
             Inl e \<Rightarrow> (s, Some e)
           | Inr vec' \<Rightarrow> (s(X := (s X)[i := vec']), None)))"

definition assign_col :: "array \<Rightarrow> nat \<Rightarrow> (store \<Rightarrow> error + rat list) \<Rightarrow> stmt" where
  "assign_col X j rhs s =
     (case rhs s of
        Inl e \<Rightarrow> (s, Some e)
      | Inr vec \<Rightarrow>
          (case broadcast (length (s X)) vec of
             Inl e \<Rightarrow> (s, Some e)
           | Inr vec' \<Rightarrow> (s(X := map2 (\<lambda>row x. row[j := x]) (s X) vec'), None)))"

definition seq :: "stmt \<Rightarrow> stmt \<Rightarrow> stmt" where
  "seq first second s =
     (case first s of (s', Some e) \<Rightarrow> (s', Some e) | (s', None) \<Rightarrow> second s')"

fun for_loop :: "nat list \<Rightarrow> (nat \<Rightarrow> stmt) \<Rightarrow> stmt" where
  "for_loop [] body s = (s, None)"
| "for_loop (i # rest) body s =
     (case body i s of (s', Some e) \<Rightarrow> (s', Some e) | (s', None) \<Rightarrow> for_loop rest body s')"

subsection \<open>The function \<open>dwt\<close>\<close>

text \<open>
  \<^verbatim>\<open>
  for i in range(0, nrow):
      LowPass_rows[i, :] = lfilter(LPF, image_array[i, :], LPF_center)
      HighPass_rows[i, :] = lfilter(HPF, image_array[i, :], HPF_center)
  \<close>
\<close>

definition filter_row :: "nat \<Rightarrow> stmt" where
  "filter_row i =
     seq (assign_row LowPass_rows i (\<lambda>s. lfilter LPF (s image_array ! i) LPF_center))
         (assign_row HighPass_rows i (\<lambda>s. lfilter HPF (s image_array ! i) HPF_center))"

text \<open>
  \<^verbatim>\<open>
  for i in range(0, ncol):
      LL[:, i] = lfilter(LPF, LowPass_rows[:, i], LPF_center)
      LH[:, i] = lfilter(HPF, LowPass_rows[:, i], HPF_center)
      HL[:, i] = lfilter(LPF, HighPass_rows[:, i], LPF_center)
      HH[:, i] = lfilter(HPF, HighPass_rows[:, i], HPF_center)
  \<close>
\<close>

definition filter_column :: "nat \<Rightarrow> stmt" where
  "filter_column i =
     seq (assign_col LL i (\<lambda>s. lfilter LPF (column (s LowPass_rows) i) LPF_center))
    (seq (assign_col LH i (\<lambda>s. lfilter HPF (column (s LowPass_rows) i) HPF_center))
    (seq (assign_col HL i (\<lambda>s. lfilter LPF (column (s HighPass_rows) i) LPF_center))
         (assign_col HH i (\<lambda>s. lfilter HPF (column (s HighPass_rows) i) HPF_center))))"

text \<open>
  \<^verbatim>\<open>
  for i in range(0, len(filtered_image)):
      filtered_image[i] = filtered_image[i][::2, :]
      filtered_image[i] = np.round(
          filtered_image[i]/quantization_Array[i]).astype(int)
  \<close>
  The list items are replaced by new integer arrays, which the model returns as
  values. \<open>quantization_Array[i]\<close> raises IndexError past the end of the list. A
  division by zero does not raise in numpy: it yields infinities and NaNs, which the
  model does not represent and reports as \<open>NonFinite\<close>.
\<close>

fun quantize_loop :: "store \<Rightarrow> view list \<Rightarrow> nat \<Rightarrow> int list \<Rightarrow> error + int list list list" where
  "quantize_loop s [] i quantization_Array = Inr []"
| "quantize_loop s (v # vs) i quantization_Array =
     (if i < length quantization_Array then
        (case quantize_loop s vs (i + 1) quantization_Array of
           Inl e \<Rightarrow> Inl e
         | Inr rest \<Rightarrow>
             if quantization_Array ! i = 0 then Inl NonFinite
             else Inr (map (map (\<lambda>x. quantize x (quantization_Array ! i)))
                         (read_view s (v\<lparr>view_rows := stride2 (view_rows v)\<rparr>)) # rest))
      else Inl IndexError)"

text \<open>
  \<^verbatim>\<open>
  nrow, ncol = image_array.shape
  LL = np.zeros((nrow, ncol))          # and LH, HL, HH
  filtered_image = [LL, LH, HL, HH]
  LowPass_rows = np.zeros((nrow, ncol))
  HighPass_rows = np.zeros((nrow, ncol))
  (row loop)
  for i in range(0, len(filtered_image)):
      filtered_image[i] = filtered_image[i][:, ::2]
  (column loop)
  (downsample rows and quantize)
  return filtered_image
  \<close>
  \<open>dwt_run\<close> starts from a store that holds the caller's array under \<open>image_array\<close>
  and returns the final store with the result or the exception.
\<close>

definition dwt_run :: "store \<Rightarrow> int list \<Rightarrow> store \<times> (error + int list list list)" where
  "dwt_run s quantization_Array =
     (let (nrow, ncol) = shape (s image_array);
          s0 = s(LL := zeros nrow ncol, LH := zeros nrow ncol, HL := zeros nrow ncol,
                 HH := zeros nrow ncol, LowPass_rows := zeros nrow ncol,
                 HighPass_rows := zeros nrow ncol);
          filtered_image =
            map (\<lambda>X. \<lparr>base = X, view_rows = [0..<nrow], view_cols = [0..<ncol]\<rparr>) [LL, LH, HL, HH]
      in case for_loop [0..<nrow] filter_row s0 of
           (s1, Some e) \<Rightarrow> (s1, Inl e)
         | (s1, None) \<Rightarrow>
             let filtered_image1 =
                   map (\<lambda>v. v\<lparr>view_cols := stride2 (view_cols v)\<rparr>) filtered_image
             in case for_loop [0..<ncol] filter_column s1 of
                  (s2, Some e) \<Rightarrow> (s2, Inl e)
                | (s2, None) \<Rightarrow> (s2, quantize_loop s2 filtered_image1 0 quantization_Array))"

text \<open>The store of a call on an integer array, and the value the call returns.\<close>

definition load :: "int list list \<Rightarrow> store" where
  "load pixels = (\<lambda>X. [])(image_array := map (map of_int) pixels)"

definition dwt :: "int list list \<Rightarrow> int list \<Rightarrow> error + int list list list" where
  "dwt pixels quantization_Array = snd (dwt_run (load pixels) quantization_Array)"

subsection \<open>The decomposition the specification describes\<close>

text \<open>
  Rounding to the nearest integer, as the specification has it: the integer nearest
  to \<open>x\<close>, and of the two integers at distance \<open>1/2\<close> the even one.
\<close>

definition round_half_even :: "rat \<Rightarrow> int" where
  "round_half_even x =
     (let z = round x in if of_int z - x = 1 / 2 \<and> odd z then z - 1 else z)"

text \<open>
  The values \<open>lfilter\<close> returns, and one subband as the specification words it:
  every row filtered with the row kernel, every column of that filtered with the
  column kernel, the entries at even row and even column indices kept, each divided
  by the divisor (the exact quotient) and rounded to the nearest integer.
\<close>

definition lfilter_values :: "rat list \<Rightarrow> int \<Rightarrow> rat list \<Rightarrow> rat list" where
  "lfilter_values taps filter_centre xs =
     (case lfilter taps xs filter_centre of Inl e \<Rightarrow> [] | Inr ys \<Rightarrow> ys)"

definition even_indices :: "nat \<Rightarrow> nat list" where
  "even_indices n = filter even [0..<n]"

definition filtered_value ::
  "rat list \<Rightarrow> int \<Rightarrow> rat list \<Rightarrow> int \<Rightarrow> int list list \<Rightarrow> nat \<Rightarrow> nat \<Rightarrow> rat" where
  "filtered_value row_taps row_centre col_taps col_centre pixels r c =
     (let row_filtered = map (\<lambda>row. lfilter_values row_taps row_centre (map of_int row)) pixels
      in lfilter_values col_taps col_centre (column row_filtered c) ! r)"

definition subband_of ::
  "rat list \<Rightarrow> int \<Rightarrow> rat list \<Rightarrow> int \<Rightarrow> int \<Rightarrow> int list list \<Rightarrow> int list list" where
  "subband_of row_taps row_centre col_taps col_centre d pixels =
     (let (nrow, ncol) = shape pixels
      in map (\<lambda>r. map (\<lambda>c. round_half_even
                 (filtered_value row_taps row_centre col_taps col_centre pixels r c / of_int d))
               (even_indices ncol))
           (even_indices nrow))"

section \<open>Recursive decomposition (encoder_2000.py)\<close>

text \<open>
  The list \<open>dwt_levels\<close> works on is a Python list whose items are numpy arrays (leaf
  subbands) or again such lists; the code tells them apart by their Python type,
  the model by a constructor.
\<close>

datatype subband = Leaf "int list list" | Node "subband list"

text \<open>
  A decomposition specification is a list of levels; a level is \<open>[index]\<close> or
  \<open>[index, levels]\<close>. Python indexing raises IndexError outside \<open>-n..n-1\<close> and counts a
  negative index from the end.
\<close>

datatype level = Level int "level list option"

definition py_index :: "nat \<Rightarrow> int \<Rightarrow> nat option" where
  "py_index n i =
     (if 0 \<le> i \<and> i < int n then Some (nat i)
      else if - int n \<le> i \<and> i < 0 then Some (nat (int n + i))
      else None)"

text \<open>
  \<^verbatim>\<open>
  assert len(levels) <= 4
  for level in levels:
      filtered_image[level[0]] = dwt(
          filtered_image[level[0]], quantization_Array)
      try:
          dwt_levels(filtered_image[level[0]],
                     level[1], quantization_Array)
      except IndexError:
          continue
  \<close>
  The function returns nothing: its effect is on the list \<open>filtered_image\<close>. The model
  returns the contents of that list when the call ends and the exception the call
  raised, if any. \<open>dwt\<close> on a slot that holds a list raises AttributeError (a list has
  no \<open>shape\<close>). The \<open>try\<close> catches the IndexError of \<open>level[1]\<close> on a one-element level
  and any IndexError that leaves the nested call; what the nested call had written
  by then stays.
\<close>

fun dwt_levels :: "subband list \<Rightarrow> level list \<Rightarrow> int list \<Rightarrow> subband list \<times> error option"
  and dwt_levels_loop ::
    "subband list \<Rightarrow> level list \<Rightarrow> int list \<Rightarrow> subband list \<times> error option" where
  "dwt_levels filtered_image levels quantization_Array =
     (if length levels \<le> 4 then dwt_levels_loop filtered_image levels quantization_Array
      else (filtered_image, Some AssertionError))"
| "dwt_levels_loop filtered_image [] quantization_Array = (filtered_image, None)"
| "dwt_levels_loop filtered_image (Level index nested # rest) quantization_Array =
     (case py_index (length filtered_image) index of
        None \<Rightarrow> (filtered_image, Some IndexError)
      | Some k \<Rightarrow>
          (case filtered_image ! k of
             Node sub \<Rightarrow> (filtered_image, Some AttributeError)
           | Leaf pixels \<Rightarrow>
               (case dwt pixels quantization_Array of
                  Inl e \<Rightarrow> (filtered_image, Some e)
                | Inr bands \<Rightarrow>
                    (case nested of
                       None \<Rightarrow>
                         dwt_levels_loop (filtered_image[k := Node (map Leaf bands)]) rest
                           quantization_Array
                     | Some levels' \<Rightarrow>
                         (case dwt_levels (map Leaf bands) levels' quantization_Array of
                            (sub', None) \<Rightarrow>
                              dwt_levels_loop (filtered_image[k := Node sub']) rest
                                quantization_Array
                          | (sub', Some e) \<Rightarrow>
                              if e = IndexError
                              then dwt_levels_loop (filtered_image[k := Node sub']) rest
                                     quantization_Array
                              else (filtered_image[k := Node sub'], Some e))))))"

text \<open>The nesting depth of a specification: \<open>[[0]]\<close> has depth 1, \<open>[[0, [[0]]]]\<close> depth 2.\<close>

fun level_depth :: "level \<Rightarrow> nat" where
  "level_depth (Level index None) = 1"
| "level_depth (Level index (Some levels)) = 1 + fold max (map level_depth levels) 0"

definition spec_depth :: "level list \<Rightarrow> nat" where
  "spec_depth levels = fold max (map level_depth levels) 0"

section \<open>Flattening the subband tree (encoder_2000.py)\<close>


text \<open>A length record: an integer for a leaf, a nested list for a nested list.\<close>

datatype length_record = Count nat | Lengths "length_record list"

text \<open>
  \<^verbatim>\<open>
  for i in filtered_image:
      if isinstance(i, list):
          output_temp, length_temp = dwt_serialize(i, [], [])
          output = output + output_temp
          length.append(length_temp)
      else:
          new_output = (serialize(i, True).tolist())
          output = output+new_output
          length = length+[len(new_output)]
  return output, length
  \<close>
  \<open>serialize\<close> is imported from the module \<open>encoder\<close>, which is not among the sources:
  it is a parameter of the model, the function from a leaf array to its flat list of
  coefficients. The model returns the pair the function returns.
\<close>

fun dwt_serialize ::
  "(int list list \<Rightarrow> int list) \<Rightarrow> subband list \<Rightarrow> int list \<Rightarrow> length_record list
     \<Rightarrow> int list \<times> length_record list" where
  "dwt_serialize serialize [] output lengths = (output, lengths)"
| "dwt_serialize serialize (Node sub # rest) output lengths =
     (case dwt_serialize serialize sub [] [] of
        (output_temp, length_temp) \<Rightarrow>
          dwt_serialize serialize rest (output @ output_temp) (lengths @ [Lengths length_temp]))"
| "dwt_serialize serialize (Leaf i # rest) output lengths =
     (let new_output = serialize i
      in dwt_serialize serialize rest (output @ new_output)
           (lengths @ [Count (length new_output)]))"

text \<open>
  The record the specification asks for: the tree with every leaf replaced by the
  number of coefficients it contributes; and the sum of all integers of a record.
\<close>

fun record_of :: "(int list list \<Rightarrow> int list) \<Rightarrow> subband \<Rightarrow> length_record" where
  "record_of serialize (Leaf i) = Count (length (serialize i))"
| "record_of serialize (Node sub) = Lengths (map (record_of serialize) sub)"

fun record_total :: "length_record \<Rightarrow> nat" where
  "record_total (Count n) = n"
| "record_total (Lengths rs) = sum_list (map record_total rs)"

fun flatten :: "(int list list \<Rightarrow> int list) \<Rightarrow> subband \<Rightarrow> int list" where
  "flatten serialize (Leaf i) = serialize i"
| "flatten serialize (Node sub) = concat (map (flatten serialize) sub)"

section \<open>Block deserialization (decoder.py)\<close>

text \<open>
  \<^verbatim>\<open>
  output = np.zeros((n_blocks, n_rows, n_cols), dtype=np.int16)
  step = 0
  for matrix in output:
      for i, j in generate_indicies_zigzag(n_rows, n_cols):
          matrix[i, j] = serialized[step]
          step += 1
  return output
  \<close>
  The blocks are arrays of 16-bit integers. What the store \<open>matrix[i, j] = v\<close> does with
  a value outside the int16 range depends on what \<open>serialized\<close> is. The docstring asks
  for a numpy array, and \<open>run_length_decode\<close> returns one: its elements are 64-bit
  numpy integers, and the conversion between numpy integer types keeps the low 16
  bits in every NumPy version. The function also runs on a Python list: a Python int
  is converted through a C long and wrapped by NumPy 1.x, which raises
  OverflowError only when the int does not fit 64 bits; NumPy 2 raises OverflowError
  for every Python int outside the int16 range. The NumPy version is a parameter of
  the model.
\<close>

datatype numpy_version = NumPy1 | NumPy2

datatype stream = ndarray "int64 list" | python_list "int list"

fun tokens :: "stream \<Rightarrow> int list" where
  "tokens (ndarray ws) = map sint ws"
| "tokens (python_list vs) = vs"

fun accepted :: "numpy_version \<Rightarrow> stream \<Rightarrow> int \<Rightarrow> bool" where
  "accepted version (ndarray ws) v = True"
| "accepted NumPy1 (python_list vs) v = (- (2 ^ 63) \<le> v \<and> v < 2 ^ 63)"
| "accepted NumPy2 (python_list vs) v = (- 32768 \<le> v \<and> v \<le> 32767)"

definition store_int16 :: "numpy_version \<Rightarrow> stream \<Rightarrow> int \<Rightarrow> error + int16" where
  "store_int16 version serialized v =
     (if accepted version serialized v then Inr (word_of_int v) else Inl OverflowError)"

text \<open>
  The scan order comes from \<open>generate_indicies_zigzag\<close> of the module \<open>encoder\<close>, which
  is not among the sources: the list of positions is a parameter. In
  \<open>matrix[i, j] = serialized[step]\<close> the read of the stream comes first (IndexError
  past its end), then the position is resolved (IndexError outside the block), then
  the value is converted.
\<close>

fun fill_block ::
  "numpy_version \<Rightarrow> (nat \<times> nat) list \<Rightarrow> int16 list list \<Rightarrow> stream \<Rightarrow> nat
     \<Rightarrow> error + (int16 list list \<times> nat)" where
  "fill_block version [] matrix serialized step = Inr (matrix, step)"
| "fill_block version ((i, j) # rest) matrix serialized step =
     (if step < length (tokens serialized) then
        (if i < length matrix \<and> j < length (matrix ! i) then
           (case store_int16 version serialized (tokens serialized ! step) of
              Inl e \<Rightarrow> Inl e
            | Inr w \<Rightarrow>
                fill_block version rest (matrix[i := (matrix ! i)[j := w]])
                  serialized (step + 1))
         else Inl IndexError)
      else Inl IndexError)"

fun fill_blocks ::
  "numpy_version \<Rightarrow> (nat \<times> nat) list \<Rightarrow> int16 list list list \<Rightarrow> stream \<Rightarrow> nat
     \<Rightarrow> error + int16 list list list" where
  "fill_blocks version positions [] serialized step = Inr []"
| "fill_blocks version positions (matrix # rest) serialized step =
     (case fill_block version positions matrix serialized step of
        Inl e \<Rightarrow> Inl e
      | Inr (matrix', step') \<Rightarrow>
          (case fill_blocks version positions rest serialized step' of
             Inl e \<Rightarrow> Inl e
           | Inr out \<Rightarrow> Inr (matrix' # out)))"

definition deserialize ::
  "numpy_version \<Rightarrow> (nat \<Rightarrow> nat \<Rightarrow> (nat \<times> nat) list) \<Rightarrow> stream \<Rightarrow> nat \<Rightarrow> nat \<Rightarrow> nat
     \<Rightarrow> error + int16 list list list" where
  "deserialize version generate_indicies_zigzag serialized n_blocks n_rows n_cols =
     fill_blocks version (generate_indicies_zigzag n_rows n_cols)
       (replicate n_blocks (replicate n_rows (replicate n_cols 0))) serialized 0"

text \<open>A scan order of an \<open>n_rows \<times> n_cols\<close> block visits positions of the block, each once.\<close>

definition scan_order :: "nat \<Rightarrow> nat \<Rightarrow> (nat \<times> nat) list \<Rightarrow> bool" where
  "scan_order n_rows n_cols positions \<longleftrightarrow>
     distinct positions \<and> list_all (\<lambda>(i, j). i < n_rows \<and> j < n_cols) positions"

text \<open>Every value of the stream is one the store converts without raising.\<close>

definition all_accepted :: "numpy_version \<Rightarrow> stream \<Rightarrow> bool" where
  "all_accepted version serialized \<longleftrightarrow>
     list_all (accepted version serialized) (tokens serialized)"

section \<open>Dequantization (decoder.py)\<close>

text \<open>
  \<^verbatim>\<open>
  return np.array([block * quantization_table for block in quantized])
  \<close>
  \<open>block * quantization_table\<close> is numpy's elementwise product of two integer arrays,
  here a two-dimensional block and a two-dimensional table. Both operands are
  converted to their common integer type (\<open>'a word\<close>: int16 for the blocks of
  \<open>deserialize\<close> with an int16 table, int64 as soon as one operand is int64) and the
  product wraps in that type. The shapes are broadcast: along each axis the two
  lengths are equal or one of them is 1, and that one is repeated; any other pair of
  lengths raises ValueError.
\<close>

definition broadcast_axis :: "nat \<Rightarrow> nat \<Rightarrow> error + nat" where
  "broadcast_axis m n =
     (if m = n then Inr m else if n = 1 then Inr m else if m = 1 then Inr n
      else Inl ValueError)"

definition stretch :: "nat \<Rightarrow> 'a list \<Rightarrow> 'a list" where
  "stretch n xs = (if length xs = n then xs else replicate n (hd xs))"

definition multiply ::
  "'a::len word list list \<Rightarrow> 'a word list list \<Rightarrow> error + 'a word list list" where
  "multiply x1 x2 =
     (let (r1, c1) = shape x1; (r2, c2) = shape x2
      in case broadcast_axis r1 r2 of
           Inl e \<Rightarrow> Inl e
         | Inr r \<Rightarrow>
             (case broadcast_axis c1 c2 of
                Inl e \<Rightarrow> Inl e
              | Inr c \<Rightarrow>
                  Inr (map2 (map2 (*)) (stretch r (map (stretch c) x1))
                         (stretch r (map (stretch c) x2)))))"

fun dequantize ::
  "'a::len word list list list \<Rightarrow> 'a word list list \<Rightarrow> error + 'a word list list list" where
  "dequantize [] quantization_table = Inr []"
| "dequantize (block # quantized) quantization_table =
     (case multiply block quantization_table of
        Inl e \<Rightarrow> Inl e
      | Inr dct_values \<Rightarrow>
          (case dequantize quantized quantization_table of
             Inl e \<Rightarrow> Inl e
           | Inr rest \<Rightarrow> Inr (dct_values # rest)))"

section \<open>Notions used in the proofs\<close>

text \<open>A matrix of \<open>r\<close> rows that all have \<open>c\<close> entries.\<close>

definition dims :: "nat \<Rightarrow> nat \<Rightarrow> 'a list list \<Rightarrow> bool" where
  "dims r c M \<longleftrightarrow> length M = r \<and> (\<forall>i<r. length (M ! i) = c)"

text \<open>One of the two kernels of \<open>dwt\<close> with its centre.\<close>

definition kernel :: "rat list \<Rightarrow> int \<Rightarrow> bool" where
  "kernel taps c \<longleftrightarrow> (taps = LPF \<and> c = LPF_center) \<or> (taps = HPF \<and> c = HPF_center)"

text \<open>
  The entries an assignment writes when its right-hand side is the filtered sequence
  \<open>xs\<close> and its target has as many entries as \<open>xs\<close>.
\<close>

definition stored :: "rat list \<Rightarrow> int \<Rightarrow> rat list \<Rightarrow> rat list" where
  "stored taps c xs =
     (case broadcast (length xs) (lfilter_values taps c xs) of Inl e \<Rightarrow> [] | Inr zs \<Rightarrow> zs)"

text \<open>The array after \<open>X[:, j] = v\<close>.\<close>

definition set_col :: "rat list list \<Rightarrow> nat \<Rightarrow> rat list \<Rightarrow> rat list list" where
  "set_col M j v = map2 (\<lambda>row x. row[j := x]) M v"

text \<open>The store after one round of the row loop, when nothing is raised.\<close>

definition row_step :: "nat \<Rightarrow> store \<Rightarrow> store" where
  "row_step i s =
     s(LowPass_rows := (s LowPass_rows)[i := stored LPF LPF_center (s image_array ! i)],
       HighPass_rows := (s HighPass_rows)[i := stored HPF HPF_center (s image_array ! i)])"

text \<open>The store after one round of the column loop, when nothing is raised.\<close>

definition col_step :: "nat \<Rightarrow> store \<Rightarrow> store" where
  "col_step j s =
     s(LL := set_col (s LL) j (stored LPF LPF_center (column (s LowPass_rows) j)),
       LH := set_col (s LH) j (stored HPF HPF_center (column (s LowPass_rows) j)),
       HL := set_col (s HL) j (stored LPF LPF_center (column (s HighPass_rows) j)),
       HH := set_col (s HH) j (stored HPF HPF_center (column (s HighPass_rows) j)))"

text \<open>The arrays of the row loop have the shape of the image.\<close>

definition rows_ready :: "nat \<Rightarrow> nat \<Rightarrow> store \<Rightarrow> bool" where
  "rows_ready nrow ncol s \<longleftrightarrow>
     dims nrow ncol (s image_array) \<and> dims nrow ncol (s LowPass_rows) \<and>
     dims nrow ncol (s HighPass_rows)"

text \<open>The arrays of the column loop have the shape of the image.\<close>

definition cols_ready :: "nat \<Rightarrow> nat \<Rightarrow> store \<Rightarrow> bool" where
  "cols_ready nrow ncol s \<longleftrightarrow>
     dims nrow ncol (s LowPass_rows) \<and> dims nrow ncol (s HighPass_rows) \<and>
     dims nrow ncol (s LL) \<and> dims nrow ncol (s LH) \<and>
     dims nrow ncol (s HL) \<and> dims nrow ncol (s HH)"

text \<open>
  The array whose columns are filtered into the subband \<open>X\<close>, the kernel of that
  column pass, and (below) the kernel of the row pass behind it.
\<close>

definition col_source :: "array \<Rightarrow> array" where
  "col_source X = (if X = LL \<or> X = LH then LowPass_rows else HighPass_rows)"

definition col_taps :: "array \<Rightarrow> rat list" where
  "col_taps X = (if X = LL \<or> X = HL then LPF else HPF)"

text \<open>The four subband arrays.\<close>

definition subbands :: "array set" where
  "subbands = {LL, LH, HL, HH}"

definition row_taps :: "array \<Rightarrow> rat list" where
  "row_taps X = (if X = LL \<or> X = LH then LPF else HPF)"

text \<open>The stores after the row loop and after the column loop.\<close>

definition after_rows :: "nat \<Rightarrow> nat \<Rightarrow> store \<Rightarrow> store" where
  "after_rows nrow ncol s =
     fold row_step [0..<nrow]
       (s(LL := zeros nrow ncol, LH := zeros nrow ncol, HL := zeros nrow ncol,
          HH := zeros nrow ncol, LowPass_rows := zeros nrow ncol,
          HighPass_rows := zeros nrow ncol))"

definition after_cols :: "nat \<Rightarrow> nat \<Rightarrow> store \<Rightarrow> store" where
  "after_cols nrow ncol s = fold col_step [0..<ncol] (after_rows nrow ncol s)"

text \<open>A statement leaves the array \<open>Y\<close> as it found it, whether it raises or not.\<close>

definition untouched :: "array \<Rightarrow> stmt \<Rightarrow> bool" where
  "untouched Y st \<longleftrightarrow> (\<forall>s. fst (st s) Y = s Y)"

text \<open>The specification that decomposes slot 0 again and again: \<open>[[0]]\<close>, \<open>[[0, [[0]]]]\<close>, ...\<close>

fun nested_spec :: "nat \<Rightarrow> level list" where
  "nested_spec 0 = [Level 0 None]"
| "nested_spec (Suc n) = [Level 0 (Some (nested_spec n))]"

text \<open>The second list is as long as the first and holds a list wherever the first does.\<close>

definition nodes_kept :: "subband list \<Rightarrow> subband list \<Rightarrow> bool" where
  "nodes_kept fi fi' \<longleftrightarrow>
     length fi' = length fi \<and>
     (\<forall>k<length fi. (\<exists>sub. fi ! k = Node sub) \<longrightarrow> (\<exists>sub. fi' ! k = Node sub))"

text \<open>
  One subband as \<open>dwt\<close> computes it from the filtered values: each entry divided and
  rounded in double precision.
\<close>

definition subband_code ::
  "rat list \<Rightarrow> int \<Rightarrow> rat list \<Rightarrow> int \<Rightarrow> int \<Rightarrow> int list list \<Rightarrow> int list list" where
  "subband_code row_kernel row_centre col_kernel col_centre d pixels =
     (let (nrow, ncol) = shape pixels;
          row_filtered = map (\<lambda>row. lfilter_values row_kernel row_centre (map of_int row)) pixels
      in map (\<lambda>r. map (\<lambda>c. quantize
                 (lfilter_values col_kernel col_centre (column row_filtered c) ! r) d)
               (even_indices ncol))
           (even_indices nrow))"

text \<open>A multiple of \<open>1/g\<close> of absolute value at most \<open>B\<close>.\<close>

definition grid :: "int \<Rightarrow> rat \<Rightarrow> rat \<Rightarrow> bool" where
  "grid g B x \<longleftrightarrow> (\<exists>m::int. x = of_int m / of_int g) \<and> \<bar>x\<bar> \<le> B"

text \<open>The filtered values at the even row and column indices.\<close>

definition filtered_grid ::
  "rat list \<Rightarrow> int \<Rightarrow> rat list \<Rightarrow> int \<Rightarrow> int list list \<Rightarrow> rat list list" where
  "filtered_grid rt rc ct cc pixels =
     (let (nrow, ncol) = shape pixels
      in map (\<lambda>r. map (\<lambda>c. filtered_value rt rc ct cc pixels r c) (even_indices ncol))
           (even_indices nrow))"

section \<open>Verification: the boundary-extended filter\<close>

lemma py_slice_left:
  assumes "0 \<le> l" "l < int (length xs)"
  shows "py_slice xs 1 (1 + l) = take (nat l) (drop 1 xs)"
  using assms by (auto simp: py_slice_def slice_bound_def Let_def min_def nat_add_distrib)

lemma py_slice_right:
  assumes "0 \<le> r" "r < int (length xs)"
  shows "py_slice xs (- r - 1) (- 1) = take (nat r) (drop (length xs - nat r - 1) xs)"
proof -
  have "nat (int (length xs) - r - 1) = length xs - nat r - 1" using assms by linarith
  moreover have "nat (int (length xs) - 1) = length xs - 1" by linarith
  moreover have "length xs - 1 - (length xs - nat r - 1) = nat r" using assms by linarith
  ultimately show ?thesis
    using assms by (simp add: py_slice_def slice_bound_def Let_def algebra_simps)
qed

lemma rev_left_pad:
  assumes "l < length xs"
  shows "rev (take l (drop 1 xs)) = map (\<lambda>i. xs ! (l - i)) [0..<l]"
proof (rule nth_equalityI)
  show "length (rev (take l (drop 1 xs))) = length (map (\<lambda>i. xs ! (l - i)) [0..<l])"
    using assms by simp
next
  fix i assume "i < length (rev (take l (drop 1 xs)))"
  then have i: "i < l" by simp
  then have "Suc (l - Suc i) = l - i" by linarith
  then show "rev (take l (drop 1 xs)) ! i = map (\<lambda>i. xs ! (l - i)) [0..<l] ! i"
    using assms i by (simp add: rev_nth)
qed

lemma rev_right_pad:
  assumes "r < length xs"
  shows "rev (take r (drop (length xs - r - 1) xs)) = map (\<lambda>i. xs ! (length xs - 2 - i)) [0..<r]"
proof (rule nth_equalityI)
  show "length (rev (take r (drop (length xs - r - 1) xs))) =
        length (map (\<lambda>i. xs ! (length xs - 2 - i)) [0..<r])"
    using assms by simp
next
  fix i assume "i < length (rev (take r (drop (length xs - r - 1) xs)))"
  then have i: "i < r" by simp
  then have "length xs - r - 1 + (r - Suc i) = length xs - 2 - i" using assms by linarith
  then show "rev (take r (drop (length xs - r - 1) xs)) ! i =
        map (\<lambda>i. xs ! (length xs - 2 - i)) [0..<r] ! i"
    using assms i by (simp add: rev_nth)
qed

lemma lfilter_extension:
  assumes "0 \<le> c" "c < int (length taps)"
    and "int (length taps) - c - 1 < int (length xs)" "c < int (length xs)"
  shows "lfilter taps xs c =
         convolve_valid (mirror_extend (length taps - nat c - 1) (nat c) xs) (rev taps)"
proof -
  have l: "nat (int (length taps) - c - 1) = length taps - nat c - 1" using assms by linarith
  have "py_slice xs 1 (1 + (int (length taps) - c - 1)) =
        take (length taps - nat c - 1) (drop 1 xs)"
    using py_slice_left [of "int (length taps) - c - 1" xs] assms l by simp
  moreover have "py_slice xs (- c - 1) (- 1) = take (nat c) (drop (length xs - nat c - 1) xs)"
    using py_slice_right [of c xs] assms by simp
  moreover have "length taps - nat c - 1 < length xs" "nat c < length xs"
    using assms by linarith+
  ultimately have "rev (py_slice xs 1 (1 + (int (length taps) - c - 1))) @ xs @
        rev (py_slice xs (- c - 1) (- 1)) =
        mirror_extend (length taps - nat c - 1) (nat c) xs"
    unfolding mirror_extend_def by (simp only: rev_left_pad rev_right_pad)
  then show ?thesis
    unfolding lfilter_def Let_def by (rule arg_cong [where f = "\<lambda>a. convolve_valid a (rev taps)"])
qed

lemma sum_list_upt_rev:
  fixes f :: "nat \<Rightarrow> rat"
  shows "(\<Sum>j\<leftarrow>[0..<n]. f j) = (\<Sum>j\<leftarrow>[0..<n]. f (n - 1 - j))"
proof -
  have "(\<Sum>j\<leftarrow>[0..<n]. f j) = (\<Sum>j<n. f j)"
    by (simp add: interv_sum_list_conv_sum_set_nat atLeast0LessThan)
  also have "\<dots> = (\<Sum>j<n. f (n - Suc j))"
    by (rule sum.nat_diff_reindex [symmetric])
  also have "\<dots> = (\<Sum>j\<leftarrow>[0..<n]. f (n - 1 - j))"
    by (simp add: interv_sum_list_conv_sum_set_nat atLeast0LessThan)
  finally show ?thesis .
qed

lemma correlate_rev_sum:
  fixes a v :: "rat list"
  shows "(\<Sum>j\<leftarrow>[0..<length v]. a ! (k + j) * rev v ! j) =
         (\<Sum>m\<leftarrow>[0..<length v]. v ! m * a ! (k + (length v - 1) - m))"
proof -
  have "(\<Sum>j\<leftarrow>[0..<length v]. a ! (k + j) * rev v ! j) =
        (\<Sum>j\<leftarrow>[0..<length v]. a ! (k + (length v - 1 - j)) * rev v ! (length v - 1 - j))"
    by (rule sum_list_upt_rev)
  also have "\<dots> = (\<Sum>m\<leftarrow>[0..<length v]. v ! m * a ! (k + (length v - 1) - m))"
    by (rule arg_cong [where f = sum_list], rule map_cong) (auto simp: rev_nth)
  finally show ?thesis .
qed

lemma convolve_valid_true_convolution:
  assumes "v \<noteq> []" "length v \<le> length a"
  shows "convolve_valid a v = Inr (true_convolution_valid a v)"
proof -
  have ne: "a \<noteq> []" using assms by auto
  have "correlate_valid a (rev v) = true_convolution_valid a v"
    unfolding correlate_valid_def true_convolution_valid_def
    using correlate_rev_sum [of a _ v] by simp
  then show ?thesis using assms ne by (simp add: convolve_valid_def)
qed

lemma length_mirror_extend [simp]: "length (mirror_extend l r xs) = l + length xs + r"
  by (simp add: mirror_extend_def)

lemma length_true_convolution_valid [simp]:
  "length (true_convolution_valid a v) = length a + 1 - length v"
  by (simp add: true_convolution_valid_def)

lemma lfilter_mirror:
  assumes "0 \<le> c" "c < int (length taps)"
    and "int (length taps) - c - 1 < int (length xs)" "c < int (length xs)"
  shows "lfilter taps xs c =
         Inr (true_convolution_valid (mirror_extend (length taps - nat c - 1) (nat c) xs) (rev taps))"
    and "length (true_convolution_valid
           (mirror_extend (length taps - nat c - 1) (nat c) xs) (rev taps)) = length xs"
proof -
  have K: "length taps - nat c - 1 + nat c = length taps - 1" "taps \<noteq> []"
    using assms by auto
  show "lfilter taps xs c =
         Inr (true_convolution_valid (mirror_extend (length taps - nat c - 1) (nat c) xs) (rev taps))"
    using assms K
    by (simp add: lfilter_extension convolve_valid_true_convolution)
  show "length (true_convolution_valid
           (mirror_extend (length taps - nat c - 1) (nat c) xs) (rev taps)) = length xs"
    using assms K by simp
qed

lemma lfilter_error_iff:
  assumes "taps \<noteq> []"
  shows "(\<exists>e. lfilter taps xs c = Inl e) \<longleftrightarrow> xs = []"
  using assms by (auto simp: lfilter_def convolve_valid_def py_slice_def Let_def)

text \<open>
  Claim C2. For a kernel of length \<open>K\<close> with centre offset \<open>0 \<le> c < K\<close> and a sequence of
  length \<open>N\<close> that exceeds both pad lengths \<open>K - c - 1\<close> and \<open>c\<close>, \<open>lfilter\<close> returns
  exactly \<open>N\<close> values: the valid part of the true convolution of the reversed kernel with
  the sequence extended on the left by the samples at indices \<open>1..K-c-1\<close> reversed and
  on the right by the \<open>c\<close> samples before the last one reversed.
\<close>

theorem lfilter_same_length_convolution:
  assumes "0 \<le> c" "c < int (length taps)"
    and "int (length taps) - c - 1 < int (length xs)" "c < int (length xs)"
  shows "lfilter taps xs c =
           Inr (true_convolution_valid
                  (mirror_extend (length taps - nat c - 1) (nat c) xs) (rev taps)) \<and>
         length (true_convolution_valid
                  (mirror_extend (length taps - nat c - 1) (nat c) xs) (rev taps)) = length xs"
  using lfilter_mirror [OF assms] by simp

theorem lfilter_same_length_convolution_witness:
  "(0::int) \<le> 2 \<and> 2 < int (length LPF) \<and>
   int (length LPF) - 2 - 1 < int (length [1, 2, 3, 4, 5, 6 :: rat]) \<and>
   2 < int (length [1, 2, 3, 4, 5, 6 :: rat]) \<and>
   lfilter LPF [1, 2, 3, 4, 5, 6] 2 = Inr [1, 7 / 4, 3, 4, 21 / 4, 6]"
proof -
  have e: "true_convolution_valid (mirror_extend (length LPF - nat 2 - 1) (nat 2)
             [1, 2, 3, 4, 5, 6]) (rev LPF) = [1, 7 / 4, 3, 4, 21 / 4, 6]"
    by code_simp
  have h: "(2::int) < int (length LPF)" by (simp add: LPF_def)
  show ?thesis
    using lfilter_same_length_convolution [of 2 LPF "[1, 2, 3, 4, 5, 6]"] e h
    by (simp add: LPF_def)
qed

text \<open>
  Claim C7, as stated, fails: a sequence one shorter than the minimum length is not
  rejected. For the low-pass kernel (\<open>K = 5\<close>, \<open>c = 2\<close>, minimum length 3) a sequence of
  length 2 is filtered without error: the slices are clamped and \<open>np.convolve\<close> swaps
  its operands.
\<close>

theorem lfilter_short_input_counterexample:
  "int (length [1, 2 :: rat]) = lfilter_min_length LPF LPF_center - 1 \<and>
   lfilter LPF [1, 2] LPF_center = Inr [13 / 8, 7 / 4]"
  by code_simp

text \<open>
  Claim C7, amended. At exactly the minimum length \<open>max (K - c - 1) c + 1\<close> the filter
  succeeds and returns as many values as it was given. \<open>lfilter\<close> checks no
  precondition: on a sequence one shorter than the minimum it raises exactly when
  the sequence is empty (the ValueError of \<open>np.convolve\<close>), and returns a result
  otherwise.
\<close>

theorem lfilter_boundary_behaviour:
  assumes "0 \<le> c" "c < int (length taps)"
  shows "(int (length xs) = lfilter_min_length taps c \<longrightarrow>
            (\<exists>ys. lfilter taps xs c = Inr ys \<and> length ys = length xs)) \<and>
         (int (length xs) = lfilter_min_length taps c - 1 \<longrightarrow>
            ((\<exists>e. lfilter taps xs c = Inl e) \<longleftrightarrow> xs = []) \<and>
            (xs = [] \<longrightarrow> lfilter taps xs c = Inl ValueError))"
proof (intro conjI impI)
  assume "int (length xs) = lfilter_min_length taps c"
  then have "int (length taps) - c - 1 < int (length xs)" "c < int (length xs)"
    by (simp_all add: lfilter_min_length_def)
  from lfilter_mirror [OF assms this]
  show "\<exists>ys. lfilter taps xs c = Inr ys \<and> length ys = length xs" by simp
next
  have "taps \<noteq> []" using assms by auto
  then show "(\<exists>e. lfilter taps xs c = Inl e) \<longleftrightarrow> xs = []" by (rule lfilter_error_iff)
next
  assume "xs = []"
  then show "lfilter taps xs c = Inl ValueError"
    by (simp add: lfilter_def convolve_valid_def py_slice_def Let_def)
qed

theorem lfilter_boundary_behaviour_witness:
  "(0::int) \<le> 2 \<and> 2 < int (length LPF) \<and>
   int (length [1, 2, 3 :: rat]) = lfilter_min_length LPF 2 \<and>
   (\<exists>ys. lfilter LPF [1, 2, 3] 2 = Inr ys \<and> length ys = length [1, 2, 3 :: rat]) \<and>
   int (length [1, 2 :: rat]) = lfilter_min_length LPF 2 - 1 \<and>
   \<not> (\<exists>e. lfilter LPF [1, 2] 2 = Inl e) \<and>
   int (length ([] :: rat list)) = lfilter_min_length [1] 0 - 1 \<and>
   lfilter [1] [] 0 = Inl ValueError"
proof -
  have h: "(2::int) < int (length LPF)" by (simp add: LPF_def)
  have m3: "int (length [1, 2, 3 :: rat]) = lfilter_min_length LPF 2"
    and m2: "int (length [1, 2 :: rat]) = lfilter_min_length LPF 2 - 1"
    and m0: "int (length ([] :: rat list)) = lfilter_min_length [1] 0 - 1"
    by (simp_all add: lfilter_min_length_def LPF_def)
  show ?thesis
    using lfilter_boundary_behaviour [of 2 LPF "[1, 2, 3]"]
      lfilter_boundary_behaviour [of 2 LPF "[1, 2]"]
      lfilter_boundary_behaviour [of 0 "[1]" "[]"] h m3 m2 m0
    by simp
qed

section \<open>Verification: rounding\<close>

lemma quotient_of_abs_pos:
  assumes "x \<noteq> 0" "quotient_of \<bar>x\<bar> = (p, q)"
  shows "0 < p" "0 < q" "\<bar>x\<bar> = of_int p / of_int q"
proof -
  show q: "0 < q" using assms(2) by (rule quotient_of_denom_pos)
  show x: "\<bar>x\<bar> = of_int p / of_int q" using assms(2) by (rule quotient_of_div)
  have "0 < \<bar>x\<bar>" using assms(1) by simp
  then show "0 < p" using q x by (simp add: zero_less_divide_iff)
qed

lemma bitlen_powi_bounds:
  assumes "0 < n"
  shows "(2::rat) powi (bitlen n - 1) \<le> of_int n" "of_int n < (2::rat) powi bitlen n"
proof -
  have b: "1 \<le> bitlen n" using assms by (auto simp: bitlen_alt_def)
  have "(2::int) ^ nat (bitlen n - 1) \<le> n" "n < 2 ^ nat (bitlen n)"
    using bitlen_bounds [OF assms] by simp_all
  then have "(of_int (2 ^ nat (bitlen n - 1)) :: rat) \<le> of_int n"
    "(of_int n :: rat) < of_int (2 ^ nat (bitlen n))"
    by (simp_all only: of_int_le_iff of_int_less_iff)
  then show "(2::rat) powi (bitlen n - 1) \<le> of_int n" "of_int n < (2::rat) powi bitlen n"
    using b by (simp_all add: power_int_def)
qed

lemma exponent_bounds:
  assumes "x \<noteq> 0"
  shows "2 powi exponent x \<le> \<bar>x\<bar>" "\<bar>x\<bar> < 2 powi (exponent x + 1)"
proof -
  obtain p q where pq: "quotient_of \<bar>x\<bar> = (p, q)" by (cases "quotient_of \<bar>x\<bar>")
  note f = quotient_of_abs_pos [OF assms pq]
  let ?e = "bitlen p - bitlen q"
  have P: "(2::rat) powi (bitlen p - 1) \<le> of_int p" "of_int p < (2::rat) powi bitlen p"
    using bitlen_powi_bounds [OF f(1)] by simp_all
  have Q: "(2::rat) powi (bitlen q - 1) \<le> of_int q" "of_int q < (2::rat) powi bitlen q"
    using bitlen_powi_bounds [OF f(2)] by simp_all
  have qpos: "(0::rat) < of_int q" using f(2) by simp
  have "of_int p < (2::rat) powi bitlen p" by (rule P(2))
  also have "\<dots> = 2 powi (?e + 1) * 2 powi (bitlen q - 1)"
    by (simp add: power_int_add [symmetric])
  also have "\<dots> \<le> 2 powi (?e + 1) * of_int q"
    using Q(1) by (intro mult_left_mono) simp_all
  finally have up: "\<bar>x\<bar> < 2 powi (?e + 1)"
    using qpos by (simp add: f(3) pos_divide_less_eq)
  have "2 powi (?e - 1) * of_int q < 2 powi (?e - 1) * (2::rat) powi bitlen q"
    using Q(2) by (intro mult_strict_left_mono) simp_all
  also have "\<dots> = 2 powi (bitlen p - 1)"
    by (simp add: power_int_add [symmetric])
  also have "\<dots> \<le> of_int p" by (rule P(1))
  finally have low: "2 powi (?e - 1) < \<bar>x\<bar>"
    using qpos by (simp add: f(3) pos_less_divide_eq)
  show "2 powi exponent x \<le> \<bar>x\<bar>"
    using low by (auto simp: exponent_def pq Let_def)
  show "\<bar>x\<bar> < 2 powi (exponent x + 1)"
    using up by (auto simp: exponent_def pq Let_def not_le)
qed

lemma exponent_less:
  assumes "x \<noteq> 0" "\<bar>x\<bar> < 2 powi n"
  shows "exponent x < n"
proof (rule ccontr)
  assume "\<not> exponent x < n"
  then have "(2::rat) powi n \<le> 2 powi exponent x"
    by (intro power_int_increasing) simp_all
  then show False using exponent_bounds(1) [OF assms(1)] assms(2) by linarith
qed

lemma exponent_ge:
  assumes "x \<noteq> 0" "2 powi n \<le> \<bar>x\<bar>"
  shows "n \<le> exponent x"
proof (rule ccontr)
  assume "\<not> n \<le> exponent x"
  then have "exponent x + 1 \<le> n" by simp
  then have "(2::rat) powi (exponent x + 1) \<le> 2 powi n"
    by (intro power_int_increasing) simp_all
  then show False using exponent_bounds(2) [OF assms(1)] assms(2) by linarith
qed

lemma np_round_near: "\<bar>of_int (np_round x) - x\<bar> \<le> 1 / 2"
  unfolding np_round_def Let_def by (auto simp: abs_if) linarith+

lemma np_round_of_int [simp]: "np_round (of_int k) = k"
  by (simp add: np_round_def)

text \<open>The rounding error of a normal number is at most half a unit in the last place.\<close>

lemma float64_error:
  assumes "2 powi (- 1022) \<le> \<bar>x\<bar>"
  shows "\<bar>float64 x - x\<bar> \<le> \<bar>x\<bar> / 2 ^ 53"
proof -
  have nz: "x \<noteq> 0" using assms by auto
  have e: "- 1022 \<le> exponent x" using nz assms by (rule exponent_ge)
  let ?u = "(2::rat) powi (exponent x - 52)"
  have upos: "0 < ?u" by simp
  have fl: "float64 x = of_int (np_round (x / ?u)) * ?u"
    using nz e by (simp add: float64_def max_def Let_def)
  have "float64 x - x = (of_int (np_round (x / ?u)) - x / ?u) * ?u"
    using upos by (simp add: fl field_simps)
  then have "\<bar>float64 x - x\<bar> = \<bar>of_int (np_round (x / ?u)) - x / ?u\<bar> * ?u"
    using upos by (simp add: abs_mult)
  also have "\<dots> \<le> (1 / 2) * ?u"
    using np_round_near [of "x / ?u"] upos by (intro mult_right_mono) simp_all
  also have "\<dots> = 2 powi exponent x / 2 ^ 53"
    by (simp add: power_int_diff)
  also have "\<dots> \<le> \<bar>x\<bar> / 2 ^ 53"
    using exponent_bounds(1) [OF nz] by (simp add: divide_right_mono)
  finally show ?thesis .
qed

text \<open>A multiple of a power of two with at most 53 significant bits is a double.\<close>

lemma float64_exact:
  assumes "x = of_int k * 2 powi j" "\<bar>x\<bar> < 2 powi (j + 53)" "- 1074 \<le> j"
  shows "float64 x = x"
proof (cases "x = 0")
  case True
  then show ?thesis by (simp add: float64_def)
next
  case False
  let ?m = "max (exponent x) (- 1022) - 52"
  have "exponent x < j + 53" using False assms(2) by (rule exponent_less)
  then have le: "?m \<le> j" using assms(3) by simp
  have "x / 2 powi ?m = of_int k * 2 powi (j - ?m)"
    by (simp add: assms(1) power_int_diff)
  also have "\<dots> = of_int k * 2 ^ nat (j - ?m)"
    using le by (simp add: power_int_def)
  also have "\<dots> = of_int (k * 2 ^ nat (j - ?m))" by simp
  finally have "np_round (x / 2 powi ?m) = k * 2 ^ nat (j - ?m)"
    by (simp only: np_round_of_int)
  then have "float64 x = of_int (k * 2 ^ nat (j - ?m)) * 2 powi ?m"
    using False by (simp add: float64_def Let_def)
  also have "\<dots> = of_int k * (2 powi (j - ?m) * 2 powi ?m)"
    using le by (simp add: power_int_def)
  also have "\<dots> = x"
    by (simp add: assms(1) power_int_add [symmetric])
  finally show ?thesis .
qed

lemma float64_of_int:
  assumes "\<bar>k\<bar> \<le> 2 ^ 53"
  shows "float64 (of_int k) = of_int k"
proof (cases "\<bar>k\<bar> = 2 ^ 53")
  case True
  then have "k = 2 ^ 53 \<or> k = - (2 ^ 53)" by linarith
  then show ?thesis
  proof
    assume "k = 2 ^ 53"
    then show ?thesis by (intro float64_exact [of _ 1 53]) simp_all
  next
    assume "k = - (2 ^ 53)"
    then show ?thesis by (intro float64_exact [of _ "- 1" 53]) simp_all
  qed
next
  case False
  then have "\<bar>k\<bar> < 2 ^ 53" using assms by linarith
  then have "\<bar>of_int k :: rat\<bar> < 2 ^ 53"
    by (metis of_int_abs of_int_less_iff of_int_numeral of_int_power)
  then show ?thesis by (intro float64_exact [of _ k 0]) simp_all
qed

lemma np_round_between:
  assumes "of_int n < 2 * x" "2 * x < of_int n + 1"
  shows "np_round x = (n + 1) div 2"
proof (cases "even n")
  case True
  then obtain k where k: "n = 2 * k" by (auto elim: evenE)
  have "of_int k < x" "x < of_int k + 1 / 2" using assms by (simp_all add: k)
  then have "\<lfloor>x\<rfloor> = k" by (intro floor_unique) simp_all
  then show ?thesis using \<open>x < of_int k + 1 / 2\<close> by (simp add: np_round_def k)
next
  case False
  then obtain k where k: "n = 2 * k + 1" by (auto elim: oddE)
  have b: "of_int k + 1 / 2 < x" "x < of_int k + 1" using assms by (simp_all add: k)
  then have "\<lfloor>x\<rfloor> = k" by (intro floor_unique) simp_all
  then show ?thesis using b by (simp add: np_round_def k)
qed

lemma np_round_eq_round_half_even: "np_round x = round_half_even x"
proof -
  let ?f = "\<lfloor>x\<rfloor>"
  let ?r = "x - of_int ?f"
  have r: "0 \<le> ?r" "?r < 1" by linarith+
  consider "?r < 1 / 2" | "?r = 1 / 2" | "1 / 2 < ?r" by linarith
  then show ?thesis
  proof cases
    case 1
    have "of_int ?f \<le> x + 1 / 2" "x + 1 / 2 < of_int ?f + 1" using 1 r by linarith+
    then have "round x = ?f" unfolding round_def by (rule floor_unique)
    moreover have "of_int ?f - x \<noteq> 1 / 2" using r by linarith
    ultimately show ?thesis using 1 by (simp add: np_round_def round_half_even_def Let_def)
  next
    case 2
    have "of_int (?f + 1) \<le> x + 1 / 2" "x + 1 / 2 < of_int (?f + 1) + 1" using 2 by simp_all
    then have "round x = ?f + 1" unfolding round_def by (rule floor_unique)
    moreover have "of_int (?f + 1) - x = 1 / 2" using 2 by simp
    ultimately show ?thesis using 2 by (simp add: np_round_def round_half_even_def Let_def)
  next
    case 3
    have "of_int (?f + 1) \<le> x + 1 / 2" "x + 1 / 2 < of_int (?f + 1) + 1"
      using 3 r by simp_all
    then have "round x = ?f + 1" unfolding round_def by (rule floor_unique)
    moreover have "of_int (?f + 1) - x \<noteq> 1 / 2" using 3 by simp
    ultimately show ?thesis using 3 by (simp add: np_round_def round_half_even_def Let_def)
  qed
qed

lemma grid_distance:
  fixes m d j :: int
  assumes "d \<noteq> 0" "(of_int m :: rat) / (64 * of_int d) \<noteq> of_int j / 2"
  shows "1 / (64 * \<bar>of_int d\<bar>) \<le> \<bar>(of_int m :: rat) / (64 * of_int d) - of_int j / 2\<bar>"
proof -
  have eq: "(of_int m :: rat) / (64 * of_int d) - of_int j / 2 =
            of_int (m - 32 * d * j) / (64 * of_int d)"
    using assms(1) by (simp add: field_simps)
  have "m - 32 * d * j \<noteq> 0" using assms(2) eq assms(1) by auto
  then have "1 \<le> \<bar>m - 32 * d * j\<bar>" by linarith
  then have "(1::rat) \<le> \<bar>of_int (m - 32 * d * j)\<bar>"
    by (metis of_int_abs of_int_1_le_iff)
  then have "1 / (64 * \<bar>of_int d :: rat\<bar>) \<le> \<bar>of_int (m - 32 * d * j)\<bar> / (64 * \<bar>of_int d\<bar>)"
    using assms(1) by (intro divide_right_mono) simp_all
  then show ?thesis unfolding eq by (simp add: abs_mult)
qed

lemma between_stable:
  fixes a f e n :: rat
  assumes "\<bar>f - a\<bar> < e" "e \<le> \<bar>a - n / 2\<bar>" "e \<le> \<bar>a - (n + 1) / 2\<bar>"
    and "n < 2 * a" "2 * a < n + 1"
  shows "n < 2 * f \<and> 2 * f < n + 1"
proof -
  have f: "a - e < f" "f < a + e" using assms(1) by linarith+
  have "0 < a - n / 2" using assms(4) by simp
  then have "\<bar>a - n / 2\<bar> = a - n / 2" by (simp only: abs_of_pos)
  then have lo: "n / 2 + e \<le> a" using assms(2) by linarith
  have "a - (n + 1) / 2 < 0" using assms(5) by simp
  then have "\<bar>a - (n + 1) / 2\<bar> = (n + 1) / 2 - a" by (simp only: abs_of_neg minus_diff_eq)
  then have hi: "a + e \<le> (n + 1) / 2" using assms(3) by linarith
  have "n < 2 * f" using f(1) lo by linarith
  moreover have "f < (n + 1) / 2" using f(2) hi by (rule less_le_trans)
  then have "2 * f < n + 1" by (simp add: field_simps)
  ultimately show ?thesis by simp
qed

lemma quantize_exact:
  assumes "x = of_int m / 64" "\<bar>m\<bar> < 2 ^ 52" "d \<noteq> 0" "\<bar>d\<bar> \<le> 2 ^ 53"
  shows "quantize x d = round_half_even (x / of_int d)"
proof -
  let ?q = "x / of_int d"
  have fd: "float64 (of_int d) = of_int d" using assms(4) by (rule float64_of_int)
  have q: "?q = of_int m / (64 * of_int d)" by (simp add: assms(1))
  have d1: "(1::rat) \<le> \<bar>of_int d\<bar>"
    using assms(3) by (metis of_int_abs of_int_1_le_iff abs_ge_zero linorder_not_le
        zero_less_abs_iff zless_imp_add1_zle add_0)
  have m: "\<bar>of_int m :: rat\<bar> < 2 ^ 52"
    using assms(2) by (metis of_int_abs of_int_less_iff of_int_numeral of_int_power)
  have "np_round (float64 ?q) = np_round ?q"
  proof (cases "\<exists>j::int. ?q = of_int j / 2")
    case True
    then obtain j :: int where j: "?q = of_int j / 2" by blast
    have "\<bar>?q\<bar> = \<bar>of_int m\<bar> / (64 * \<bar>of_int d\<bar>)" by (simp add: q abs_mult)
    also have "\<dots> \<le> \<bar>of_int m\<bar> / (64 * 1)"
      using d1 by (intro divide_left_mono mult_left_mono mult_pos_pos) simp_all
    also have "\<dots> < 2 ^ 52" using m by simp
    finally have h2: "\<bar>?q\<bar> < 2 powi (- 1 + 53)" by simp
    have h1: "?q = of_int j * 2 powi (- 1)" by (simp add: j power_int_minus)
    have "float64 ?q = ?q" by (rule float64_exact [OF h1 h2]) simp
    then show ?thesis by simp
  next
    case False
    let ?n = "\<lfloor>2 * ?q\<rfloor>"
    have ne: "?q \<noteq> of_int j / 2" for j :: int using False by blast
    have mnz: "m \<noteq> 0" using ne [of 0] by (auto simp: q)
    have lo: "of_int ?n < 2 * ?q"
    proof -
      have "of_int ?n \<noteq> 2 * ?q" using ne [of ?n] by linarith
      then show ?thesis using of_int_floor_le [of "2 * ?q"] by linarith
    qed
    have hi: "2 * ?q < of_int ?n + 1" by linarith
    have dl: "1 / (64 * \<bar>of_int d\<bar>) \<le> \<bar>?q - of_int ?n / 2\<bar>"
      unfolding q using assms(3) ne [of ?n] by (intro grid_distance) (simp_all add: q)
    have dh: "1 / (64 * \<bar>of_int d\<bar>) \<le> \<bar>?q - of_int (?n + 1) / 2\<bar>"
      unfolding q using assms(3) ne [of "?n + 1"] by (intro grid_distance) (simp_all add: q)
    have qabs: "\<bar>?q\<bar> = \<bar>of_int m\<bar> / (64 * \<bar>of_int d\<bar>)" by (simp add: q abs_mult)
    have "(1::rat) \<le> \<bar>of_int m\<bar>"
      using mnz by (metis of_int_abs of_int_1_le_iff abs_ge_zero linorder_not_le
        zero_less_abs_iff zless_imp_add1_zle add_0)
    moreover have "\<bar>of_int d :: rat\<bar> \<le> 2 ^ 53"
      using assms(4) by (metis of_int_abs of_int_le_iff of_int_numeral of_int_power)
    ultimately have small: "1 / (64 * 2 ^ 53) \<le> \<bar>?q\<bar>"
      unfolding qabs using d1 by (intro frac_le) simp_all
    have "(2::rat) powi (- 1022) \<le> 2 powi (- 59)"
      by (intro power_int_increasing) simp_all
    also have "\<dots> = 1 / (64 * 2 ^ 53)" by (simp add: power_int_minus)
    finally have "2 powi (- 1022) \<le> \<bar>?q\<bar>" using small by linarith
    then have "\<bar>float64 ?q - ?q\<bar> \<le> \<bar>?q\<bar> / 2 ^ 53" by (rule float64_error)
    also have "\<dots> = (\<bar>of_int m\<bar> / 2 ^ 53) / (64 * \<bar>of_int d\<bar>)" by (subst qabs) simp
    also have "\<dots> < 1 / (64 * \<bar>of_int d\<bar>)"
      using m d1 by (intro divide_strict_right_mono) simp_all
    finally have err: "\<bar>float64 ?q - ?q\<bar> < 1 / (64 * \<bar>of_int d\<bar>)" .
    have dh': "1 / (64 * \<bar>of_int d\<bar>) \<le> \<bar>?q - (of_int ?n + 1) / 2\<bar>"
      using dh by simp
    have 1: "of_int ?n < 2 * float64 ?q" and 2: "2 * float64 ?q < of_int ?n + 1"
      using between_stable [OF err dl dh' lo hi] by simp_all
    show ?thesis
      using np_round_between [OF 1 2] np_round_between [OF lo hi] by simp
  qed
  then show ?thesis by (simp add: quantize_def fd np_round_eq_round_half_even)
qed

text \<open>The specification's rounding yields an integer nearest to its argument.\<close>

lemma round_half_even_nearest:
  "\<bar>of_int (round_half_even x) - x\<bar> \<le> \<bar>of_int z - x\<bar>"
proof (cases "z = round_half_even x")
  case True
  then show ?thesis by simp
next
  case False
  let ?n = "round_half_even x"
  have a: "\<bar>of_int ?n - x\<bar> \<le> 1 / 2"
    using np_round_near [of x] by (simp add: np_round_eq_round_half_even)
  have "1 \<le> \<bar>z - ?n\<bar>" using False by linarith
  then have "(1::rat) \<le> \<bar>of_int z - of_int ?n\<bar>"
    by (metis of_int_diff of_int_abs of_int_1_le_iff)
  then show ?thesis using a by linarith
qed


section \<open>Verification: single-level decomposition\<close>

lemma slice_bound_le: "slice_bound n i \<le> n"
  by (simp add: slice_bound_def) linarith

lemma length_py_slice:
  "length (py_slice xs a b) = slice_bound (length xs) b - slice_bound (length xs) a"
  using slice_bound_le [of "length xs" b] by (simp add: py_slice_def Let_def)

lemma length_correlate_valid [simp]:
  "length (correlate_valid a v) = length a + 1 - length v"
  by (simp add: correlate_valid_def)

lemma lfilter_LPF_length:
  assumes "2 \<le> length xs"
  shows "\<exists>ys. lfilter LPF xs LPF_center = Inr ys \<and> length ys = length xs"
  using assms
  by (auto simp: lfilter_def convolve_valid_def Let_def LPF_def LPF_center_def
      length_py_slice slice_bound_def)

lemma lfilter_HPF_length:
  assumes "2 \<le> length xs"
  shows "\<exists>ys. lfilter HPF xs HPF_center = Inr ys \<and>
           (length ys = length xs \<or> length ys = 1 \<and> length xs = 2)"
  using assms
  by (auto simp: lfilter_def convolve_valid_def Let_def HPF_def HPF_center_def
      length_py_slice slice_bound_def)

lemma kernel_length:
  assumes "kernel taps c" "2 \<le> length xs"
  shows "\<exists>ys. lfilter taps xs c = Inr ys \<and>
           (length ys = length xs \<or> length ys = 1 \<and> length xs = 2)"
  using assms lfilter_LPF_length [of xs] lfilter_HPF_length [of xs]
  by (auto simp: kernel_def)

lemma kernel_stored:
  assumes "kernel taps c" "2 \<le> length xs"
  shows "lfilter taps xs c = Inr (lfilter_values taps c xs)"
    and "broadcast (length xs) (lfilter_values taps c xs) = Inr (stored taps c xs)"
    and "length (stored taps c xs) = length xs"
    and "k < length xs \<Longrightarrow> even k \<Longrightarrow> stored taps c xs ! k = lfilter_values taps c xs ! k"
proof -
  obtain ys where ys: "lfilter taps xs c = Inr ys"
    "length ys = length xs \<or> length ys = 1 \<and> length xs = 2"
    using kernel_length [OF assms] by blast
  then have v: "lfilter_values taps c xs = ys" by (simp add: lfilter_values_def)
  show "lfilter taps xs c = Inr (lfilter_values taps c xs)" using ys v by simp
  show "broadcast (length xs) (lfilter_values taps c xs) = Inr (stored taps c xs)"
    using ys(2) v by (auto simp: stored_def broadcast_def)
  show "length (stored taps c xs) = length xs"
    using ys(2) v by (auto simp: stored_def broadcast_def)
  show "stored taps c xs ! k = lfilter_values taps c xs ! k" if "k < length xs" "even k"
  proof (cases "length ys = length xs")
    case True
    then show ?thesis using v by (simp add: stored_def broadcast_def)
  next
    case False
    then have l: "length ys = 1" "length xs = 2" using ys(2) by auto
    then have "k = 0" using that by (cases k) auto
    then show ?thesis using v l by (cases ys) (auto simp: stored_def broadcast_def)
  qed
qed

lemma dims_length: "dims r c M \<Longrightarrow> length M = r"
  by (simp add: dims_def)

lemma dims_nth: "dims r c M \<Longrightarrow> i < r \<Longrightarrow> length (M ! i) = c"
  by (simp add: dims_def)

lemma dims_row_update:
  assumes "dims r c M" "length v = c"
  shows "dims r c (M[i := v])"
proof -
  have "length (M[i := v] ! k) = c" if "k < r" for k
    using assms that by (cases "k = i") (simp_all add: dims_def)
  then show ?thesis using assms by (simp add: dims_def)
qed

lemma length_column [simp]: "length (column M j) = length M"
  by (simp add: column_def)

lemma set_col_nth:
  assumes "dims r c M" "length v = r" "i < r"
  shows "set_col M j v ! i = (M ! i)[j := v ! i]"
  using assms by (simp add: set_col_def dims_def)

lemma dims_set_col:
  assumes "dims r c M" "length v = r"
  shows "dims r c (set_col M j v)"
  using assms by (simp add: dims_def set_col_def)

lemma set_col_nth_nth:
  assumes "dims r c M" "length v = r" "i < r" "k < c"
  shows "set_col M j v ! i ! k = (if k = j then v ! i else M ! i ! k)"
  using assms by (simp add: set_col_nth dims_nth nth_list_update)

lemma assign_row_kernel:
  assumes "kernel taps c" "2 \<le> length (s image_array ! i)"
    and "length (s X ! i) = length (s image_array ! i)"
  shows "assign_row X i (\<lambda>s. lfilter taps (s image_array ! i) c) s =
           (s(X := (s X)[i := stored taps c (s image_array ! i)]), None)"
  using kernel_stored(1,2) [OF assms(1,2)] assms(3) by (simp add: assign_row_def)

lemma assign_col_kernel:
  assumes "kernel taps c" "2 \<le> length (s Y)" "length (s X) = length (s Y)"
  shows "assign_col X j (\<lambda>s. lfilter taps (column (s Y) j) c) s =
           (s(X := set_col (s X) j (stored taps c (column (s Y) j))), None)"
  using kernel_stored(1,2) [of taps c "column (s Y) j"] assms
  by (simp add: assign_col_def set_col_def)

lemma kernel_LPF [simp]: "kernel LPF LPF_center"
  by (simp add: kernel_def)

lemma kernel_HPF [simp]: "kernel HPF HPF_center"
  by (simp add: kernel_def)

lemma filter_row_step:
  assumes "rows_ready nrow ncol s" "2 \<le> ncol" "i < nrow"
  shows "filter_row i s = (row_step i s, None)"
proof -
  have l: "length (s image_array ! i) = ncol" "length (s LowPass_rows ! i) = ncol"
    "length (s HighPass_rows ! i) = ncol"
    using assms by (simp_all add: rows_ready_def dims_def)
  have 1: "assign_row LowPass_rows i (\<lambda>s. lfilter LPF (s image_array ! i) LPF_center) s =
      (s(LowPass_rows := (s LowPass_rows)[i := stored LPF LPF_center (s image_array ! i)]), None)"
    using l assms(2) by (intro assign_row_kernel) simp_all
  let ?s1 = "s(LowPass_rows := (s LowPass_rows)[i := stored LPF LPF_center (s image_array ! i)])"
  have 2: "assign_row HighPass_rows i (\<lambda>s. lfilter HPF (s image_array ! i) HPF_center) ?s1 =
      (?s1(HighPass_rows := (?s1 HighPass_rows)[i := stored HPF HPF_center (?s1 image_array ! i)]),
       None)"
    using l assms(2) by (intro assign_row_kernel) simp_all
  show ?thesis
    unfolding filter_row_def seq_def row_step_def 1 using 2 by simp
qed

lemma rows_ready_step:
  assumes "rows_ready nrow ncol s" "2 \<le> ncol" "i < nrow"
  shows "rows_ready nrow ncol (row_step i s)"
proof -
  have "length (s image_array ! i) = ncol" using assms by (simp add: rows_ready_def dims_def)
  then have "length (stored LPF LPF_center (s image_array ! i)) = ncol"
    "length (stored HPF HPF_center (s image_array ! i)) = ncol"
    using assms(2) by (simp_all add: kernel_stored(3))
  then show ?thesis using assms(1)
    by (simp add: rows_ready_def row_step_def dims_row_update)
qed

lemma for_loop_rows:
  assumes "rows_ready nrow ncol s" "2 \<le> ncol" "\<forall>i\<in>set is. i < nrow"
  shows "for_loop is filter_row s = (fold row_step is s, None)"
  using assms
proof (induction "is" arbitrary: s)
  case Nil
  then show ?case by simp
next
  case (Cons i rest)
  have "filter_row i s = (row_step i s, None)"
    using Cons.prems by (intro filter_row_step [of nrow ncol]) simp_all
  moreover have "for_loop rest filter_row (row_step i s) = (fold row_step rest (row_step i s), None)"
    using Cons.prems by (intro Cons.IH rows_ready_step) simp_all
  ultimately show ?case by simp
qed

lemma row_step_other:
  "X \<noteq> LowPass_rows \<Longrightarrow> X \<noteq> HighPass_rows \<Longrightarrow> row_step k s X = s X"
  by (simp add: row_step_def)

lemma row_step_low:
  "row_step k s LowPass_rows =
     (s LowPass_rows)[k := stored LPF LPF_center (s image_array ! k)]"
  by (simp add: row_step_def)

lemma row_step_high:
  "row_step k s HighPass_rows =
     (s HighPass_rows)[k := stored HPF HPF_center (s image_array ! k)]"
  by (simp add: row_step_def)

lemma fold_row_step:
  assumes "rows_ready nrow ncol s" "2 \<le> ncol" "\<forall>i\<in>set is. i < nrow"
  shows "rows_ready nrow ncol (fold row_step is s) \<and>
         (\<forall>X. X \<noteq> LowPass_rows \<longrightarrow> X \<noteq> HighPass_rows \<longrightarrow> fold row_step is s X = s X) \<and>
         (\<forall>i<nrow. fold row_step is s LowPass_rows ! i =
           (if i \<in> set is then stored LPF LPF_center (s image_array ! i)
            else s LowPass_rows ! i)) \<and>
         (\<forall>i<nrow. fold row_step is s HighPass_rows ! i =
           (if i \<in> set is then stored HPF HPF_center (s image_array ! i)
            else s HighPass_rows ! i))"
  using assms
proof (induction "is" arbitrary: s)
  case Nil
  then show ?case by simp
next
  case (Cons k rest)
  let ?s = "row_step k s"
  have r: "rows_ready nrow ncol ?s"
    using Cons.prems rows_ready_step [of nrow ncol s k] by simp
  have len: "length (s LowPass_rows) = nrow" "length (s HighPass_rows) = nrow"
    using Cons.prems(1) by (simp_all add: rows_ready_def dims_def)
  have im: "?s image_array = s image_array" by (simp add: row_step_other)
  have IH: "rows_ready nrow ncol (fold row_step rest ?s)"
    "\<And>X. X \<noteq> LowPass_rows \<Longrightarrow> X \<noteq> HighPass_rows \<Longrightarrow> fold row_step rest ?s X = ?s X"
    "\<And>i. i < nrow \<Longrightarrow> fold row_step rest ?s LowPass_rows ! i =
           (if i \<in> set rest then stored LPF LPF_center (?s image_array ! i)
            else ?s LowPass_rows ! i)"
    "\<And>i. i < nrow \<Longrightarrow> fold row_step rest ?s HighPass_rows ! i =
           (if i \<in> set rest then stored HPF HPF_center (?s image_array ! i)
            else ?s HighPass_rows ! i)"
    using Cons.IH [OF r] Cons.prems by simp_all
  have 1: "rows_ready nrow ncol (fold row_step (k # rest) s)" using IH(1) by simp
  have 2: "fold row_step (k # rest) s X = s X"
    if "X \<noteq> LowPass_rows" "X \<noteq> HighPass_rows" for X
    using IH(2) [OF that] that by (simp add: row_step_other)
  have 3: "fold row_step (k # rest) s LowPass_rows ! i =
           (if i \<in> set (k # rest) then stored LPF LPF_center (s image_array ! i)
            else s LowPass_rows ! i)" if "i < nrow" for i
    using IH(3) [OF that] that len
    by (simp only: fold_simps im row_step_low) (auto simp: nth_list_update)
  have 4: "fold row_step (k # rest) s HighPass_rows ! i =
           (if i \<in> set (k # rest) then stored HPF HPF_center (s image_array ! i)
            else s HighPass_rows ! i)" if "i < nrow" for i
    using IH(4) [OF that] that len
    by (simp only: fold_simps im row_step_high) (auto simp: nth_list_update)
  show ?case using 1 2 3 4 by blast
qed

lemma kernel_col_taps [simp]: "kernel (col_taps X) 2"
  by (simp add: col_taps_def kernel_def LPF_center_def HPF_center_def)

lemma col_step_other: "X \<notin> subbands \<Longrightarrow> col_step j s X = s X"
  by (simp add: col_step_def subbands_def)

lemma col_step_subband:
  "X \<in> subbands \<Longrightarrow>
   col_step j s X = set_col (s X) j (stored (col_taps X) 2 (column (s (col_source X)) j))"
  by (auto simp: col_step_def subbands_def col_taps_def col_source_def
      LPF_center_def HPF_center_def)

lemma cols_ready_iff:
  "cols_ready nrow ncol s \<longleftrightarrow>
     dims nrow ncol (s LowPass_rows) \<and> dims nrow ncol (s HighPass_rows) \<and>
     (\<forall>X\<in>subbands. dims nrow ncol (s X))"
  by (auto simp: cols_ready_def subbands_def)

lemma filter_column_step:
  assumes "cols_ready nrow ncol s" "2 \<le> nrow"
  shows "filter_column j s = (col_step j s, None)"
proof -
  have l: "length (s LowPass_rows) = nrow" "length (s HighPass_rows) = nrow"
    "length (s LL) = nrow" "length (s LH) = nrow" "length (s HL) = nrow" "length (s HH) = nrow"
    using assms(1) by (simp_all add: cols_ready_def dims_def)
  show ?thesis
    using l assms(2)
    by (simp add: filter_column_def seq_def col_step_def assign_col_kernel)
qed

lemma cols_ready_step:
  assumes "cols_ready nrow ncol s" "2 \<le> nrow"
  shows "cols_ready nrow ncol (col_step j s)"
proof -
  have src: "length (column (s (col_source X)) j) = nrow" for X
    using assms(1) by (simp add: cols_ready_def col_source_def dims_def)
  have "dims nrow ncol (col_step j s X)" if "X \<in> subbands" for X
  proof -
    have "length (stored (col_taps X) 2 (column (s (col_source X)) j)) = nrow"
      using kernel_stored(3) [of "col_taps X" 2 "column (s (col_source X)) j"] src assms(2)
      by simp
    moreover have "dims nrow ncol (s X)" using assms(1) that by (simp add: cols_ready_iff)
    ultimately show ?thesis using that by (simp add: col_step_subband dims_set_col)
  qed
  moreover have "col_step j s LowPass_rows = s LowPass_rows"
    "col_step j s HighPass_rows = s HighPass_rows"
    by (simp_all add: col_step_other subbands_def)
  ultimately show ?thesis using assms(1) by (simp add: cols_ready_iff)
qed

lemma for_loop_cols:
  assumes "cols_ready nrow ncol s" "2 \<le> nrow"
  shows "for_loop js filter_column s = (fold col_step js s, None)"
  using assms
proof (induction js arbitrary: s)
  case Nil
  then show ?case by simp
next
  case (Cons j rest)
  have "filter_column j s = (col_step j s, None)"
    using Cons.prems by (rule filter_column_step)
  moreover have "for_loop rest filter_column (col_step j s) =
      (fold col_step rest (col_step j s), None)"
    using Cons.prems by (intro Cons.IH cols_ready_step)
  ultimately show ?case by simp
qed

lemma fold_col_step:
  assumes "cols_ready nrow ncol s" "2 \<le> nrow"
  shows "cols_ready nrow ncol (fold col_step js s) \<and>
         (\<forall>X. X \<notin> subbands \<longrightarrow> fold col_step js s X = s X) \<and>
         (\<forall>X\<in>subbands. \<forall>r<nrow. \<forall>c<ncol. fold col_step js s X ! r ! c =
            (if c \<in> set js then stored (col_taps X) 2 (column (s (col_source X)) c) ! r
             else s X ! r ! c))"
  using assms
proof (induction js arbitrary: s)
  case Nil
  then show ?case by simp
next
  case (Cons j rest)
  let ?s = "col_step j s"
  have r: "cols_ready nrow ncol ?s" using Cons.prems by (rule cols_ready_step)
  have IH: "cols_ready nrow ncol (fold col_step rest ?s)"
    "\<And>X. X \<notin> subbands \<Longrightarrow> fold col_step rest ?s X = ?s X"
    "\<And>X r c. X \<in> subbands \<Longrightarrow> r < nrow \<Longrightarrow> c < ncol \<Longrightarrow>
        fold col_step rest ?s X ! r ! c =
          (if c \<in> set rest then stored (col_taps X) 2 (column (?s (col_source X)) c) ! r
           else ?s X ! r ! c)"
    using Cons.IH [OF r Cons.prems(2)] by simp_all
  have src: "col_source X \<notin> subbands" for X
    by (simp add: col_source_def subbands_def)
  have 1: "cols_ready nrow ncol (fold col_step (j # rest) s)" using IH(1) by simp
  have 2: "fold col_step (j # rest) s X = s X" if "X \<notin> subbands" for X
    using IH(2) [OF that] that by (simp add: col_step_other)
  have 3: "fold col_step (j # rest) s X ! r ! c =
            (if c \<in> set (j # rest) then stored (col_taps X) 2 (column (s (col_source X)) c) ! r
             else s X ! r ! c)"
    if "X \<in> subbands" "r < nrow" "c < ncol" for X r c
  proof -
    have d: "dims nrow ncol (s X)" using Cons.prems(1) that(1) by (simp add: cols_ready_iff)
    have "length (column (s (col_source X)) j) = nrow"
      using Cons.prems(1) by (simp add: cols_ready_def col_source_def dims_def)
    then have len: "length (stored (col_taps X) 2 (column (s (col_source X)) j)) = nrow"
      using kernel_stored(3) [of "col_taps X" 2 "column (s (col_source X)) j"] Cons.prems(2)
      by simp
    have "?s X ! r ! c =
        (if c = j then stored (col_taps X) 2 (column (s (col_source X)) j) ! r else s X ! r ! c)"
      using that by (simp add: col_step_subband set_col_nth_nth [OF d len])
    moreover have "?s (col_source X) = s (col_source X)" by (simp add: col_step_other src)
    ultimately show ?thesis using IH(3) [OF that] by auto
  qed
  show ?case using 1 2 3 by blast
qed

lemma stride2_upt_gen: "stride2 [m..<n] = filter (\<lambda>i. even (i - m)) [m..<n]"
proof (induction "n - m" arbitrary: m rule: less_induct)
  case less
  consider "n \<le> m" | "n = Suc m" | "Suc (Suc m) \<le> n" by linarith
  then show ?case
  proof cases
    case 1
    then show ?thesis by simp
  next
    case 2
    then show ?thesis by simp
  next
    case 3
    then have u: "[m..<n] = m # Suc m # [Suc (Suc m)..<n]"
      by (simp add: upt_conv_Cons)
    have "stride2 [Suc (Suc m)..<n] = filter (\<lambda>i. even (i - Suc (Suc m))) [Suc (Suc m)..<n]"
      using 3 by (intro less) linarith
    also have "\<dots> = filter (\<lambda>i. even (i - m)) [Suc (Suc m)..<n]"
      by (rule filter_cong) (auto simp: Suc_diff_Suc)
    finally show ?thesis by (simp add: u)
  qed
qed

lemma stride2_upt: "stride2 [0..<n] = even_indices n"
  using stride2_upt_gen [of 0 n] by (simp add: even_indices_def)

lemma set_even_indices: "r \<in> set (even_indices n) \<longleftrightarrow> r < n \<and> even r"
  by (auto simp: even_indices_def)

lemma length_even_indices: "even n \<Longrightarrow> length (even_indices n) = n div 2"
proof (induction n rule: less_induct)
  case (less n)
  show ?case
  proof (cases "n = 0")
    case True
    then show ?thesis by (simp add: even_indices_def)
  next
    case False
    then obtain k where k: "n = Suc (Suc k)" using less.prems by (cases n) (auto elim: oddE)
    then have "even k" using less.prems by simp
    then have "length (even_indices k) = k div 2" using less.IH [of k] k by simp
    then show ?thesis using k \<open>even k\<close> by (simp add: even_indices_def)
  qed
qed

lemma shape_dims: "dims r c M \<Longrightarrow> 0 < r \<Longrightarrow> shape M = (r, c)"
  by (cases M) (auto simp: shape_def dims_def)

lemma dims_zeros_rat: "dims r c (zeros r c)"
  by (simp add: zeros_def dims_def)

lemma dims_of_int: "dims r c M \<Longrightarrow> dims r c (map (map f) M)"
  by (simp add: dims_def)

lemma dwt_run_steps:
  assumes "dims nrow ncol (s image_array)" "2 \<le> nrow" "2 \<le> ncol"
  shows "dwt_run s q =
           (after_cols nrow ncol s,
            quantize_loop (after_cols nrow ncol s)
              (map (\<lambda>X. \<lparr>base = X, view_rows = [0..<nrow], view_cols = stride2 [0..<ncol]\<rparr>)
                 [LL, LH, HL, HH]) 0 q)"
    and "cols_ready nrow ncol (after_rows nrow ncol s)"
    and "i < nrow \<Longrightarrow> after_rows nrow ncol s LowPass_rows ! i =
           stored LPF LPF_center (s image_array ! i)"
    and "i < nrow \<Longrightarrow> after_rows nrow ncol s HighPass_rows ! i =
           stored HPF HPF_center (s image_array ! i)"
proof -
  let ?s0 = "s(LL := zeros nrow ncol, LH := zeros nrow ncol, HL := zeros nrow ncol,
          HH := zeros nrow ncol, LowPass_rows := zeros nrow ncol,
          HighPass_rows := zeros nrow ncol)"
  let ?s1 = "after_rows nrow ncol s"
  have sh: "shape (s image_array) = (nrow, ncol)"
    using assms by (intro shape_dims) simp_all
  have r0: "rows_ready nrow ncol ?s0"
    using assms(1) by (simp add: rows_ready_def dims_zeros_rat)
  have idx: "\<forall>i\<in>set [0..<nrow]. i < nrow" by simp
  have loop1: "for_loop [0..<nrow] filter_row ?s0 = (?s1, None)"
    unfolding after_rows_def using r0 assms(3) idx by (rule for_loop_rows)
  have f1: "rows_ready nrow ncol ?s1"
    "\<And>X. X \<noteq> LowPass_rows \<Longrightarrow> X \<noteq> HighPass_rows \<Longrightarrow> ?s1 X = ?s0 X"
    "\<And>i. i < nrow \<Longrightarrow> ?s1 LowPass_rows ! i =
       (if i \<in> set [0..<nrow] then stored LPF LPF_center (?s0 image_array ! i)
        else ?s0 LowPass_rows ! i)"
    "\<And>i. i < nrow \<Longrightarrow> ?s1 HighPass_rows ! i =
       (if i \<in> set [0..<nrow] then stored HPF HPF_center (?s0 image_array ! i)
        else ?s0 HighPass_rows ! i)"
    unfolding after_rows_def using fold_row_step [OF r0 assms(3) idx] by blast+
  show c1: "cols_ready nrow ncol ?s1"
    using f1(1) f1(2) [of LL] f1(2) [of LH] f1(2) [of HL] f1(2) [of HH]
    by (simp add: cols_ready_def rows_ready_def dims_zeros_rat)
  show "after_rows nrow ncol s LowPass_rows ! i = stored LPF LPF_center (s image_array ! i)"
    if "i < nrow"
    using f1(3) [OF that] that by simp
  show "after_rows nrow ncol s HighPass_rows ! i = stored HPF HPF_center (s image_array ! i)"
    if "i < nrow"
    using f1(4) [OF that] that by simp
  have loop2: "for_loop [0..<ncol] filter_column ?s1 = (after_cols nrow ncol s, None)"
    unfolding after_cols_def using c1 assms(2) by (rule for_loop_cols)
  show "dwt_run s q =
           (after_cols nrow ncol s,
            quantize_loop (after_cols nrow ncol s)
              (map (\<lambda>X. \<lparr>base = X, view_rows = [0..<nrow], view_cols = stride2 [0..<ncol]\<rparr>)
                 [LL, LH, HL, HH]) 0 q)"
    unfolding dwt_run_def sh by (simp add: loop1 loop2 Let_def)
qed

lemma after_cols_value:
  assumes "dims nrow ncol (s image_array)" "2 \<le> nrow" "2 \<le> ncol"
    and "X \<in> subbands" "r < nrow" "even r" "c < ncol" "even c"
  shows "after_cols nrow ncol s X ! r ! c =
           lfilter_values (col_taps X) 2
             (column (map (lfilter_values (row_taps X) 2) (s image_array)) c) ! r"
proof -
  let ?s1 = "after_rows nrow ncol s"
  note st = dwt_run_steps(2-4) [where s = s and nrow = nrow and ncol = ncol, OF assms(1-3)]
  have lenimg: "length (s image_array) = nrow" "\<And>i. i < nrow \<Longrightarrow> length (s image_array ! i) = ncol"
    using assms(1) by (simp_all add: dims_def)
  have src: "?s1 (col_source X) ! i = stored (row_taps X) 2 (s image_array ! i)"
    if "i < nrow" for i
    using st(2) [OF that] st(3) [OF that]
    by (simp add: col_source_def row_taps_def LPF_center_def HPF_center_def)
  have lensrc: "length (?s1 (col_source X)) = nrow"
    using st(1) by (simp add: cols_ready_def col_source_def dims_def)
  have kr: "kernel (row_taps X) 2"
    by (simp add: row_taps_def kernel_def LPF_center_def HPF_center_def)
  have col: "column (?s1 (col_source X)) c =
             column (map (lfilter_values (row_taps X) 2) (s image_array)) c"
  proof (rule nth_equalityI)
    show "length (column (?s1 (col_source X)) c) =
          length (column (map (lfilter_values (row_taps X) 2) (s image_array)) c)"
      using lensrc lenimg by simp
  next
    fix i assume "i < length (column (?s1 (col_source X)) c)"
    then have i: "i < nrow" using lensrc by simp
    have "stored (row_taps X) 2 (s image_array ! i) ! c =
          lfilter_values (row_taps X) 2 (s image_array ! i) ! c"
      using kernel_stored(4) [OF kr, of "s image_array ! i" c] lenimg(2) [OF i] assms(3,7,8)
      by simp
    then show "column (?s1 (col_source X)) c ! i =
          column (map (lfilter_values (row_taps X) 2) (s image_array)) c ! i"
      using i lensrc lenimg src [OF i] by (simp add: column_def)
  qed
  have "after_cols nrow ncol s X ! r ! c =
        (if c \<in> set [0..<ncol] then stored (col_taps X) 2 (column (?s1 (col_source X)) c) ! r
         else ?s1 X ! r ! c)"
    unfolding after_cols_def
    using fold_col_step [OF st(1) assms(2), of "[0..<ncol]"] assms(4,5,7) by blast
  also have "\<dots> = stored (col_taps X) 2 (column (?s1 (col_source X)) c) ! r"
    using assms(7) by simp
  also have "\<dots> = lfilter_values (col_taps X) 2 (column (?s1 (col_source X)) c) ! r"
    using kernel_stored(4) [of "col_taps X" 2 "column (?s1 (col_source X)) c" r]
      lensrc assms(2,5,6) by simp
  finally show ?thesis by (simp only: col)
qed

lemma quantized_view:
  assumes "dims nrow ncol pixels" "2 \<le> nrow" "2 \<le> ncol" "X \<in> subbands"
  shows "map (map (\<lambda>x. quantize x d))
           (read_view (after_cols nrow ncol (load pixels))
              (\<lparr>base = X, view_rows = [0..<nrow], view_cols = stride2 [0..<ncol]\<rparr>
                 \<lparr>view_rows := stride2 [0..<nrow]\<rparr>)) =
         subband_code (row_taps X) 2 (col_taps X) 2 d pixels"
proof -
  let ?s = "load pixels"
  have img: "?s image_array = map (map of_int) pixels" by (simp add: load_def)
  have d: "dims nrow ncol (?s image_array)"
    using assms(1) by (simp add: img dims_of_int)
  have sh: "shape pixels = (nrow, ncol)" using assms(1,2) by (intro shape_dims) simp_all
  have rf: "map (\<lambda>row. lfilter_values (row_taps X) 2 (map of_int row)) pixels =
            map (lfilter_values (row_taps X) 2) (?s image_array)"
    by (simp add: img comp_def)
  have v: "after_cols nrow ncol ?s X ! r ! c =
           lfilter_values (col_taps X) 2
             (column (map (lfilter_values (row_taps X) 2) (?s image_array)) c) ! r"
    if "r \<in> set (even_indices nrow)" "c \<in> set (even_indices ncol)" for r c
    using after_cols_value [where s = "load pixels" and r = r and c = c, OF d assms(2,3,4)] that by (simp add: set_even_indices)
  show ?thesis
    unfolding subband_code_def sh rf
    by (simp add: read_view_def stride2_upt Let_def v cong: map_cong)
qed

lemma quantize_loop_four:
  assumes "length q = 4" "q ! 0 \<noteq> 0" "q ! 1 \<noteq> 0" "q ! 2 \<noteq> 0" "q ! 3 \<noteq> 0"
  shows "quantize_loop s [v0, v1, v2, v3] 0 q =
    Inr [map (map (\<lambda>x. quantize x (q ! 0))) (read_view s (v0\<lparr>view_rows := stride2 (view_rows v0)\<rparr>)),
         map (map (\<lambda>x. quantize x (q ! 1))) (read_view s (v1\<lparr>view_rows := stride2 (view_rows v1)\<rparr>)),
         map (map (\<lambda>x. quantize x (q ! 2))) (read_view s (v2\<lparr>view_rows := stride2 (view_rows v2)\<rparr>)),
         map (map (\<lambda>x. quantize x (q ! 3))) (read_view s (v3\<lparr>view_rows := stride2 (view_rows v3)\<rparr>))]"
  using assms by (simp add: numeral_eq_Suc)

lemma dwt_result:
  assumes "dims nrow ncol pixels" "2 \<le> nrow" "2 \<le> ncol"
    and "length q = 4" "q ! 0 \<noteq> 0" "q ! 1 \<noteq> 0" "q ! 2 \<noteq> 0" "q ! 3 \<noteq> 0"
  shows "dwt pixels q =
           Inr [subband_code LPF LPF_center LPF LPF_center (q ! 0) pixels,
                subband_code LPF LPF_center HPF HPF_center (q ! 1) pixels,
                subband_code HPF HPF_center LPF LPF_center (q ! 2) pixels,
                subband_code HPF HPF_center HPF HPF_center (q ! 3) pixels]"
proof -
  have d: "dims nrow ncol (load pixels image_array)"
    using assms(1) by (simp add: load_def dims_of_int)
  have run: "dwt pixels q =
      quantize_loop (after_cols nrow ncol (load pixels))
        [\<lparr>base = LL, view_rows = [0..<nrow], view_cols = stride2 [0..<ncol]\<rparr>,
         \<lparr>base = LH, view_rows = [0..<nrow], view_cols = stride2 [0..<ncol]\<rparr>,
         \<lparr>base = HL, view_rows = [0..<nrow], view_cols = stride2 [0..<ncol]\<rparr>,
         \<lparr>base = HH, view_rows = [0..<nrow], view_cols = stride2 [0..<ncol]\<rparr>] 0 q"
    unfolding dwt_def dwt_run_steps(1) [where s = "load pixels", OF d assms(2,3)] by simp
  have qv: "map (map (\<lambda>x. quantize x dd))
           (read_view (after_cols nrow ncol (load pixels))
              (\<lparr>base = X, view_rows = stride2 [0..<nrow], view_cols = stride2 [0..<ncol]\<rparr>)) =
         subband_code (row_taps X) 2 (col_taps X) 2 dd pixels" if "X \<in> subbands" for X dd
    using quantized_view [OF assms(1-3) that, of dd] by simp
  show ?thesis
    unfolding run quantize_loop_four [OF assms(4-8)]
    using qv [of LL] qv [of LH] qv [of HL] qv [of HH]
    by (simp add: subbands_def row_taps_def col_taps_def LPF_center_def HPF_center_def)
qed

lemma untouched_assign_row: "X \<noteq> Y \<Longrightarrow> untouched Y (assign_row X i rhs)"
  by (simp add: untouched_def assign_row_def split: sum.splits)

lemma untouched_assign_col: "X \<noteq> Y \<Longrightarrow> untouched Y (assign_col X j rhs)"
  by (simp add: untouched_def assign_col_def split: sum.splits)

lemma untouched_seq:
  assumes "untouched Y first" "untouched Y second"
  shows "untouched Y (seq first second)"
  unfolding untouched_def
proof
  fix s
  obtain s' r where f: "first s = (s', r)" by (cases "first s")
  then have s': "s' Y = s Y" using assms(1) by (auto simp: untouched_def dest: spec [of _ s])
  show "fst (seq first second s) Y = s Y"
  proof (cases r)
    case None
    then show ?thesis using f s' assms(2) by (simp add: seq_def untouched_def)
  next
    case (Some e)
    then show ?thesis using f s' by (simp add: seq_def)
  qed
qed

lemma untouched_for_loop:
  assumes "\<And>i. untouched Y (body i)"
  shows "untouched Y (for_loop is body)"
  unfolding untouched_def
proof
  fix s
  show "fst (for_loop is body s) Y = s Y"
  proof (induction "is" arbitrary: s)
    case Nil
    then show ?case by simp
  next
    case (Cons i rest)
    obtain s' r where b: "body i s = (s', r)" by (cases "body i s")
    then have s': "s' Y = s Y" using assms [of i] by (auto simp: untouched_def dest: spec [of _ s])
    show ?case
    proof (cases r)
      case None
      then show ?thesis using b s' Cons.IH [of s'] by simp
    next
      case (Some e)
      then show ?thesis using b s' by simp
    qed
  qed
qed

lemma untouched_filter_row: "untouched image_array (filter_row i)"
  by (simp add: filter_row_def untouched_seq untouched_assign_row)

lemma untouched_filter_column: "untouched image_array (filter_column i)"
  by (simp add: filter_column_def untouched_seq untouched_assign_col)

lemma dwt_run_image_array: "fst (dwt_run s q) image_array = s image_array"
proof -
  obtain nrow ncol where sh: "shape (s image_array) = (nrow, ncol)"
    by (cases "shape (s image_array)")
  let ?s0 = "s(LL := zeros nrow ncol, LH := zeros nrow ncol, HL := zeros nrow ncol,
          HH := zeros nrow ncol, LowPass_rows := zeros nrow ncol,
          HighPass_rows := zeros nrow ncol)"
  obtain s1 r1 where l1: "for_loop [0..<nrow] filter_row ?s0 = (s1, r1)"
    by (cases "for_loop [0..<nrow] filter_row ?s0")
  have "untouched image_array (for_loop [0..<nrow] filter_row)"
    by (rule untouched_for_loop) (rule untouched_filter_row)
  then have "fst (for_loop [0..<nrow] filter_row ?s0) image_array = ?s0 image_array"
    unfolding untouched_def by blast
  then have s1: "s1 image_array = s image_array" using l1 by simp
  obtain s2 r2 where l2: "for_loop [0..<ncol] filter_column s1 = (s2, r2)"
    by (cases "for_loop [0..<ncol] filter_column s1")
  have "untouched image_array (for_loop [0..<ncol] filter_column)"
    by (rule untouched_for_loop) (rule untouched_filter_column)
  then have "fst (for_loop [0..<ncol] filter_column s1) image_array = s1 image_array"
    unfolding untouched_def by blast
  then have s2: "s2 image_array = s image_array" using l2 s1 by simp
  show ?thesis
    unfolding dwt_run_def sh using l1 l2 s1 s2
    by (cases r1; cases r2) (simp_all add: Let_def)
qed

lemma dims_subband_code:
  assumes "dims nrow ncol pixels" "0 < nrow" "even nrow" "even ncol"
  shows "dims (nrow div 2) (ncol div 2) (subband_code rt rc ct cc d pixels)"
proof -
  have sh: "shape pixels = (nrow, ncol)" using assms(1,2) by (rule shape_dims)
  show ?thesis
    unfolding subband_code_def sh
    using assms(3,4) by (simp add: dims_def length_even_indices Let_def)
qed

lemma dims_list_all: "dims r c M \<longleftrightarrow> length M = r \<and> list_all (\<lambda>row. length row = c) M"
  by (auto simp: dims_def list_all_length)

lemma grid_mult:
  assumes "grid g B x" "grid 8 1 t"
  shows "grid (8 * g) B (x * t)"
proof -
  obtain m :: int where m: "x = of_int m / of_int g" and xb: "\<bar>x\<bar> \<le> B"
    using assms(1) unfolding grid_def by blast
  obtain n :: int where n: "t = of_int n / of_int 8" and tb: "\<bar>t\<bar> \<le> 1"
    using assms(2) unfolding grid_def by blast
  have "x * t = of_int (m * n) / of_int (8 * g)" by (simp add: m n)
  moreover have "\<bar>x * t\<bar> \<le> B * 1"
    unfolding abs_mult using xb tb by (intro mult_mono) simp_all
  ultimately show ?thesis unfolding grid_def by (metis mult.right_neutral)
qed

lemma grid_sum_list:
  assumes "\<forall>y\<in>set ys. grid g B y"
  shows "grid g (of_nat (length ys) * B) (sum_list ys)"
  using assms
proof (induction ys)
  case Nil
  then show ?case by (simp add: grid_def)
next
  case (Cons y ys)
  have "grid g B y" using Cons.prems by simp
  then obtain m :: int where m: "y = of_int m / of_int g" and yb: "\<bar>y\<bar> \<le> B"
    unfolding grid_def by blast
  have "grid g (of_nat (length ys) * B) (sum_list ys)" using Cons by simp
  then obtain n :: int where n: "sum_list ys = of_int n / of_int g"
    and sb: "\<bar>sum_list ys\<bar> \<le> of_nat (length ys) * B"
    unfolding grid_def by blast
  have "sum_list (y # ys) = of_int (m + n) / of_int g"
    by (simp add: m n add_divide_distrib)
  moreover have "\<bar>sum_list (y # ys)\<bar> \<le> of_nat (length (y # ys)) * B"
    using yb sb by (simp add: algebra_simps)
  ultimately show ?case unfolding grid_def by blast
qed

lemma grid_mono: "grid g B x \<Longrightarrow> B \<le> B' \<Longrightarrow> grid g B' x"
  by (auto simp: grid_def)

lemma grid_eighth: "\<bar>m\<bar> \<le> 8 \<Longrightarrow> grid 8 1 (of_int m / 8)"
proof -
  assume "\<bar>m\<bar> \<le> 8"
  then have "\<bar>of_int m :: rat\<bar> \<le> 8" by (metis of_int_abs of_int_le_iff of_int_numeral)
  then have "\<bar>of_int m / 8 :: rat\<bar> \<le> 1" by simp
  moreover have "(of_int m / 8 :: rat) = of_int m / of_int 8" by simp
  ultimately show ?thesis unfolding grid_def by blast
qed

lemma kernel_taps:
  assumes "kernel taps c"
  shows "length taps \<le> 5" "\<forall>t\<in>set taps. grid 8 1 t"
proof -
  have L: "LPF = map (\<lambda>m. of_int m / 8) [- 1, 2, 6, 2, - 1]" by (simp add: LPF_def)
  have H: "HPF = map (\<lambda>m. of_int m / 8) [- 4, 8, - 4]" by (simp add: HPF_def)
  have t: "taps = LPF \<or> taps = HPF" using assms by (auto simp: kernel_def)
  then show "length taps \<le> 5" by (auto simp: LPF_def HPF_def)
  have "\<forall>m\<in>set [- 1, 2, 6, 2, - 1 :: int]. grid 8 1 (of_int m / 8)"
  proof (intro ballI grid_eighth)
    fix m :: int assume "m \<in> set [- 1, 2, 6, 2, - 1]"
    then show "\<bar>m\<bar> \<le> 8" by auto
  qed
  then have "\<forall>t\<in>set LPF. grid 8 1 t" unfolding L set_map by blast
  moreover have "\<forall>m\<in>set [- 4, 8, - 4 :: int]. grid 8 1 (of_int m / 8)"
  proof (intro ballI grid_eighth)
    fix m :: int assume "m \<in> set [- 4, 8, - 4]"
    then show "\<bar>m\<bar> \<le> 8" by auto
  qed
  then have "\<forall>t\<in>set HPF. grid 8 1 t" unfolding H set_map by blast
  ultimately show "\<forall>t\<in>set taps. grid 8 1 t" using t by auto
qed

lemma correlate_grid:
  assumes "\<And>k j. j < length v \<Longrightarrow> k + j < length a \<Longrightarrow> grid G B (a ! (k + j) * v ! j)"
    and "length v \<le> 5" "0 \<le> B"
  shows "\<forall>y\<in>set (correlate_valid a v). grid G (5 * B) y"
proof
  fix y assume "y \<in> set (correlate_valid a v)"
  then obtain k where k: "k < length a + 1 - length v"
    and y: "y = (\<Sum>j\<leftarrow>[0..<length v]. a ! (k + j) * v ! j)"
    by (auto simp: correlate_valid_def)
  let ?ts = "map (\<lambda>j. a ! (k + j) * v ! j) [0..<length v]"
  have "\<forall>t\<in>set ?ts. grid G B t"
  proof
    fix t assume "t \<in> set ?ts"
    then obtain j where j: "j < length v" "t = a ! (k + j) * v ! j" by auto
    have "k + j < length a" using k j(1) by linarith
    then show "grid G B t" using assms(1) j by simp
  qed
  then have "grid G (of_nat (length ?ts) * B) (sum_list ?ts)" by (rule grid_sum_list)
  moreover have "of_nat (length ?ts) * B \<le> 5 * B"
    using assms(2,3) by (intro mult_right_mono) simp_all
  ultimately show "grid G (5 * B) y" unfolding y by (rule grid_mono)
qed

lemma set_py_slice: "set (py_slice xs a b) \<subseteq> set xs"
  unfolding py_slice_def Let_def
  by (meson set_take_subset set_drop_subset subset_trans)

lemma lfilter_grid:
  assumes "kernel taps c" "\<forall>x\<in>set xs. grid g B x" "0 \<le> B"
  shows "\<forall>y\<in>set (lfilter_values taps c xs). grid (8 * g) (5 * B) y"
proof -
  let ?arr = "rev (py_slice xs 1 (1 + (int (length taps) - c - 1))) @ xs @
                rev (py_slice xs (- c - 1) (- 1))"
  note kt = kernel_taps [OF assms(1)]
  have sub: "set ?arr \<subseteq> set xs" using set_py_slice [of xs] by auto
  have arr: "\<forall>x\<in>set ?arr. grid g B x" using sub assms(2) by blast
  have 1: "\<forall>y\<in>set (correlate_valid ?arr taps). grid (8 * g) (5 * B) y"
  proof (rule correlate_grid)
    fix k j assume "j < length taps" "k + j < length ?arr"
    then have "grid g B (?arr ! (k + j))" "grid 8 1 (taps ! j)"
      using arr kt(2) nth_mem by blast+
    then show "grid (8 * g) B (?arr ! (k + j) * taps ! j)" by (rule grid_mult)
  qed (use kt(1) assms(3) in simp_all)
  have 2: "\<forall>y\<in>set (correlate_valid (rev taps) (rev ?arr)). grid (8 * g) (5 * B) y"
    if "length ?arr < length taps"
  proof (rule correlate_grid)
    fix k j assume "j < length (rev ?arr)" "k + j < length (rev taps)"
    then have "rev ?arr ! j \<in> set ?arr" "rev taps ! (k + j) \<in> set taps"
      by (metis nth_mem set_rev)+
    then have "grid g B (rev ?arr ! j)" "grid 8 1 (rev taps ! (k + j))"
      using arr kt(2) by blast+
    then have "grid (8 * g) B (rev ?arr ! j * rev taps ! (k + j))" by (rule grid_mult)
    then show "grid (8 * g) B (rev taps ! (k + j) * rev ?arr ! j)" by (subst mult.commute)
  next
    show "length (rev ?arr) \<le> 5" using that kt(1) by simp
  qed (rule assms(3))
  show ?thesis
    using 1 2
    by (auto simp: lfilter_values_def lfilter_def convolve_valid_def Let_def
        split: sum.splits if_splits)
qed

lemma even_index_length:
  assumes "kernel taps c" "2 \<le> length xs" "k < length xs" "even k"
  shows "k < length (lfilter_values taps c xs)"
proof -
  obtain ys where ys: "lfilter taps xs c = Inr ys"
    "length ys = length xs \<or> length ys = 1 \<and> length xs = 2"
    using kernel_length [OF assms(1,2)] by blast
  have "k < length ys"
    using ys(2) assms(3,4) by (cases "k = 0") (auto simp: less_Suc_eq numeral_2_eq_2)
  then show ?thesis using ys(1) by (simp add: lfilter_values_def)
qed

lemma filtered_value_grid:
  assumes "dims nrow ncol pixels" "2 \<le> nrow" "2 \<le> ncol"
    and "kernel rt rc" "kernel ct cc"
    and "\<forall>row\<in>set pixels. \<forall>p\<in>set row. \<bar>p\<bar> \<le> B"
    and "r < nrow" "even r" "c < ncol" "even c"
  shows "grid 64 (25 * of_int B) (filtered_value rt rc ct cc pixels r c)"
proof -
  let ?rf = "map (\<lambda>row. lfilter_values rt rc (map of_int row)) pixels"
  have len: "length pixels = nrow" "\<And>i. i < nrow \<Longrightarrow> length (pixels ! i) = ncol"
    using assms(1) by (simp_all add: dims_def)
  have B0: "(0::rat) \<le> of_int B"
  proof -
    have "pixels ! 0 \<in> set pixels" "pixels ! 0 ! 0 \<in> set (pixels ! 0)"
      using len assms(2,3) by simp_all
    then have "\<bar>pixels ! 0 ! 0\<bar> \<le> B" using assms(6) by blast
    then show ?thesis by simp
  qed
  have px: "\<forall>x\<in>set (map of_int row). grid 1 (of_int B) x" if "row \<in> set pixels" for row
  proof
    fix x :: rat assume "x \<in> set (map of_int row)"
    then obtain p where p: "p \<in> set row" "x = of_int p" by auto
    then have "\<bar>p\<bar> \<le> B" using assms(6) that by blast
    then have "\<bar>of_int p :: rat\<bar> \<le> of_int B" by (metis of_int_abs of_int_le_iff)
    moreover have "(of_int p :: rat) = of_int p / of_int 1" by simp
    ultimately show "grid 1 (of_int B) x" unfolding grid_def p(2) by blast
  qed
  have col: "\<forall>x\<in>set (column ?rf c). grid 8 (5 * of_int B) x"
  proof
    fix x assume "x \<in> set (column ?rf c)"
    then obtain row where row: "row \<in> set pixels"
      "x = lfilter_values rt rc (map of_int row) ! c"
      by (auto simp: column_def)
    obtain i where i: "i < nrow" "row = pixels ! i"
      using row(1) len(1) by (auto simp: in_set_conv_nth)
    have l: "length (map of_int row :: rat list) = ncol" using i len(2) by simp
    have "c < length (lfilter_values rt rc (map of_int row))"
      using assms(4) by (rule even_index_length) (use l assms(3,9,10) in simp_all)
    then have "x \<in> set (lfilter_values rt rc (map of_int row))"
      unfolding row(2) by (rule nth_mem)
    then show "grid 8 (5 * of_int B) x"
      using lfilter_grid [OF assms(4) px [OF row(1)] B0] by simp
  qed
  have "r < length (lfilter_values ct cc (column ?rf c))"
    using assms(5) by (rule even_index_length) (use len(1) assms(2,7,8) in simp_all)
  then have "filtered_value rt rc ct cc pixels r c \<in> set (lfilter_values ct cc (column ?rf c))"
    unfolding filtered_value_def Let_def by (rule nth_mem)
  moreover have "(0::rat) \<le> 5 * of_int B" using B0 by simp
  ultimately show ?thesis
    using lfilter_grid [OF assms(5) col] by simp
qed

lemma quantize_filtered_value:
  assumes "dims nrow ncol pixels" "2 \<le> nrow" "2 \<le> ncol"
    and "kernel rt rc" "kernel ct cc"
    and "\<forall>row\<in>set pixels. \<forall>p\<in>set row. \<bar>p\<bar> \<le> 2 ^ 40"
    and "r < nrow" "even r" "c < ncol" "even c"
    and "d \<noteq> 0" "\<bar>d\<bar> \<le> 2 ^ 53"
  shows "quantize (filtered_value rt rc ct cc pixels r c) d =
         round_half_even (filtered_value rt rc ct cc pixels r c / of_int d)"
proof -
  let ?x = "filtered_value rt rc ct cc pixels r c"
  have "grid 64 (25 * of_int (2 ^ 40)) ?x"
    using assms(1-10) by (rule filtered_value_grid)
  then obtain m :: int where m: "?x = of_int m / 64" and b: "\<bar>?x\<bar> \<le> 25 * 2 ^ 40"
    by (auto simp: grid_def)
  have "\<bar>of_int m :: rat\<bar> = \<bar>?x\<bar> * 64" by (simp add: m)
  also have "\<dots> \<le> 25 * 2 ^ 40 * 64" using b by simp
  also have "\<dots> < 2 ^ 52" by simp
  finally have "\<bar>of_int m :: rat\<bar> < of_int (2 ^ 52)" by simp
  then have "\<bar>m\<bar> < 2 ^ 52" by (metis of_int_abs of_int_less_iff)
  then show ?thesis using m assms(11,12) by (intro quantize_exact) simp_all
qed

lemma subband_code_spec:
  assumes "dims nrow ncol pixels" "2 \<le> nrow" "2 \<le> ncol"
    and "kernel rt rc" "kernel ct cc"
    and "\<forall>row\<in>set pixels. \<forall>p\<in>set row. \<bar>p\<bar> \<le> 2 ^ 40"
    and "d \<noteq> 0" "\<bar>d\<bar> \<le> 2 ^ 53"
  shows "subband_code rt rc ct cc d pixels = subband_of rt rc ct cc d pixels"
proof -
  have sh: "shape pixels = (nrow, ncol)" using assms(1,2) by (intro shape_dims) simp_all
  have "quantize (lfilter_values ct cc
            (column (map (\<lambda>row. lfilter_values rt rc (map of_int row)) pixels) c) ! r) d =
        round_half_even (filtered_value rt rc ct cc pixels r c / of_int d)"
    if "r \<in> set (even_indices nrow)" "c \<in> set (even_indices ncol)" for r c
    using quantize_filtered_value [OF assms(1-6) _ _ _ _ assms(7,8), of r c] that
    by (simp add: set_even_indices filtered_value_def)
  then show ?thesis
    unfolding subband_code_def subband_of_def sh by (simp add: Let_def cong: map_cong)
qed

lemma dims_subband_spec:
  assumes "dims nrow ncol pixels" "0 < nrow" "even nrow" "even ncol"
  shows "dims (nrow div 2) (ncol div 2) (subband_of rt rc ct cc d pixels)"
proof -
  have sh: "shape pixels = (nrow, ncol)" using assms(1,2) by (rule shape_dims)
  show ?thesis
    unfolding subband_of_def sh
    using assms(3,4) by (simp add: dims_def length_even_indices Let_def)
qed

lemma subband_code_filtered:
  "subband_code rt rc ct cc d pixels =
     map (map (\<lambda>x. quantize x d)) (filtered_grid rt rc ct cc pixels)"
  by (simp add: subband_code_def filtered_grid_def filtered_value_def Let_def comp_def
      split: prod.split)

lemma subband_of_filtered:
  "subband_of rt rc ct cc d pixels =
     map (map (\<lambda>x. round_half_even (x / of_int d))) (filtered_grid rt rc ct cc pixels)"
  by (simp add: subband_of_def filtered_grid_def Let_def comp_def split: prod.split)

lemma quantize_small: "quantize 8 1 = 8" "quantize 0 1 = 0"
  by code_simp+

text \<open>
  Claim C1, as stated for every integer matrix, fails for large entries. On the
  \<open>4 \<times> 4\<close> image of the constant \<open>p = 6755399441055760\<close> every product and sum of the
  two filter passes is an integer below \<open>2^53\<close>, so the doubles are exact and the
  low-pass value is \<open>p\<close> itself. The quotient \<open>p / 3 = 2251799813685253 + 1/3\<close> lies
  between \<open>2^51\<close> and \<open>2^52\<close>, where the doubles are the multiples of \<open>1/2\<close>: the division
  yields \<open>2251799813685253.5\<close> and \<open>np.round\<close> takes this tie to the even
  \<open>2251799813685254\<close>, which is not the integer nearest to \<open>p / 3\<close>.
\<close>

theorem dwt_rounding_counterexample:
  "dwt (replicate 4 (replicate 4 6755399441055760)) [3, 1, 1, 1] =
     Inr [[[2251799813685254, 2251799813685254], [2251799813685254, 2251799813685254]],
          [[0, 0], [0, 0]], [[0, 0], [0, 0]], [[0, 0], [0, 0]]] \<and>
   subband_of LPF LPF_center LPF LPF_center 3 (replicate 4 (replicate 4 6755399441055760)) =
     [[2251799813685253, 2251799813685253], [2251799813685253, 2251799813685253]]"
proof -
  let ?P = "replicate 4 (replicate 4 (6755399441055760 :: int))"
  have d: "dims 4 4 ?P" by (simp add: dims_def)
  have g: "filtered_grid LPF LPF_center LPF LPF_center ?P =
             [[6755399441055760, 6755399441055760], [6755399441055760, 6755399441055760]]"
    "filtered_grid LPF LPF_center HPF HPF_center ?P = [[0, 0], [0, 0]]"
    "filtered_grid HPF HPF_center LPF LPF_center ?P = [[0, 0], [0, 0]]"
    "filtered_grid HPF HPF_center HPF HPF_center ?P = [[0, 0], [0, 0]]"
    by code_simp+
  have z: "quantize 6755399441055760 3 = 2251799813685254" "quantize 0 1 = 0"
    "round_half_even (6755399441055760 / of_int 3) = 2251799813685253"
    by code_simp+
  have "dwt ?P [3, 1, 1, 1] =
     Inr [[[2251799813685254, 2251799813685254], [2251799813685254, 2251799813685254]],
          [[0, 0], [0, 0]], [[0, 0], [0, 0]], [[0, 0], [0, 0]]]"
    using dwt_result [OF d, of "[3, 1, 1, 1]"] by (simp add: subband_code_filtered g z)
  moreover have "subband_of LPF LPF_center LPF LPF_center 3 ?P =
     [[2251799813685253, 2251799813685253], [2251799813685253, 2251799813685253]]"
    using z(3) by (simp add: subband_of_filtered g)
  ultimately show ?thesis by simp
qed

text \<open>
  Claim C1, amended. For an integer image whose two dimensions are even (and not
  zero) and whose entries are at most \<open>2^40\<close> in absolute value, and four non-zero
  divisors of at most \<open>2^53\<close> in absolute value, \<open>dwt\<close> returns the four subbands in the
  order LL, LH, HL, HH. Each is the image with every row filtered (low-pass for LL
  and LH, high-pass for HL and HH) and then every column filtered (low-pass for LL
  and HL, high-pass for LH and HH), read at the even row and even column indices,
  divided by the divisor of its role and rounded to the nearest integer (the even
  one of two nearest); each has half the rows and half the columns of the image.
  The views taken before the column loop see what the loop writes, so the result
  holds the filtered data and not the zeros the arrays were created with. Within
  these bounds the filtered values are multiples of \<open>1/64\<close> below \<open>2^46\<close>, the doubles
  of the two passes are exact, and the rounding of the quotient to a double never
  carries it across a half-integer.
\<close>

theorem dwt_subbands:
  assumes "dims nrow ncol pixels" "even nrow" "even ncol" "0 < nrow" "0 < ncol"
    and "\<forall>row\<in>set pixels. \<forall>p\<in>set row. \<bar>p\<bar> \<le> 2 ^ 40"
    and "length q = 4" "\<forall>d\<in>set q. d \<noteq> 0 \<and> \<bar>d\<bar> \<le> 2 ^ 53"
  shows "dwt pixels q =
           Inr [subband_of LPF LPF_center LPF LPF_center (q ! 0) pixels,
                subband_of LPF LPF_center HPF HPF_center (q ! 1) pixels,
                subband_of HPF HPF_center LPF LPF_center (q ! 2) pixels,
                subband_of HPF HPF_center HPF HPF_center (q ! 3) pixels] \<and>
         dims (nrow div 2) (ncol div 2) (subband_of LPF LPF_center LPF LPF_center (q ! 0) pixels) \<and>
         dims (nrow div 2) (ncol div 2) (subband_of LPF LPF_center HPF HPF_center (q ! 1) pixels) \<and>
         dims (nrow div 2) (ncol div 2) (subband_of HPF HPF_center LPF LPF_center (q ! 2) pixels) \<and>
         dims (nrow div 2) (ncol div 2) (subband_of HPF HPF_center HPF HPF_center (q ! 3) pixels)"
proof -
  have two: "2 \<le> nrow" "2 \<le> ncol" using assms(2-5) by (auto elim!: evenE)
  have mem: "q ! 0 \<in> set q" "q ! 1 \<in> set q" "q ! 2 \<in> set q" "q ! 3 \<in> set q"
    using assms(7) by simp_all
  then have nz: "q ! 0 \<noteq> 0" "q ! 1 \<noteq> 0" "q ! 2 \<noteq> 0" "q ! 3 \<noteq> 0"
    and le: "\<bar>q ! 0\<bar> \<le> 2 ^ 53" "\<bar>q ! 1\<bar> \<le> 2 ^ 53" "\<bar>q ! 2\<bar> \<le> 2 ^ 53" "\<bar>q ! 3\<bar> \<le> 2 ^ 53"
    using assms(8) by blast+
  note spec = subband_code_spec [OF assms(1) two _ _ assms(6)]
  have e: "subband_code LPF LPF_center LPF LPF_center (q ! 0) pixels =
             subband_of LPF LPF_center LPF LPF_center (q ! 0) pixels"
    "subband_code LPF LPF_center HPF HPF_center (q ! 1) pixels =
             subband_of LPF LPF_center HPF HPF_center (q ! 1) pixels"
    "subband_code HPF HPF_center LPF LPF_center (q ! 2) pixels =
             subband_of HPF HPF_center LPF LPF_center (q ! 2) pixels"
    "subband_code HPF HPF_center HPF HPF_center (q ! 3) pixels =
             subband_of HPF HPF_center HPF HPF_center (q ! 3) pixels"
    by (rule spec [OF kernel_LPF kernel_LPF nz(1) le(1)])
      (rule spec [OF kernel_LPF kernel_HPF nz(2) le(2)],
       rule spec [OF kernel_HPF kernel_LPF nz(3) le(3)],
       rule spec [OF kernel_HPF kernel_HPF nz(4) le(4)])
  have r: "dwt pixels q =
           Inr [subband_code LPF LPF_center LPF LPF_center (q ! 0) pixels,
                subband_code LPF LPF_center HPF HPF_center (q ! 1) pixels,
                subband_code HPF HPF_center LPF LPF_center (q ! 2) pixels,
                subband_code HPF HPF_center HPF HPF_center (q ! 3) pixels]"
    by (rule dwt_result [OF assms(1) two assms(7) nz])
  show ?thesis
    unfolding r e using dims_subband_spec [OF assms(1,4,2,3)] by simp
qed

theorem dwt_subbands_witness:
  "dims 4 4 [[12, 200, 37, 41], [5, 66, 7, 180], [91, 10, 110, 12], [13, 140, 15, 17 :: int]] \<and>
   even (4 :: nat) \<and> (0 :: nat) < 4 \<and>
   list_all (list_all (\<lambda>p. \<bar>p\<bar> \<le> 2 ^ 40))
     [[12, 200, 37, 41], [5, 66, 7, 180], [91, 10, 110, 12], [13, 140, 15, 17 :: int]] \<and>
   length [2, 3, 4, 5 :: int] = 4 \<and>
   list_all (\<lambda>d. d \<noteq> 0 \<and> \<bar>d\<bar> \<le> 2 ^ 53) [2, 3, 4, 5 :: int] \<and>
   dwt [[12, 200, 37, 41], [5, 66, 7, 180], [91, 10, 110, 12], [13, 140, 15, 17]] [2, 3, 4, 5] =
     Inr [[[40, 39], [22, 29]], [[- 13, - 2], [10, - 5]], [[46, 28], [- 8, - 4]],
          [[4, 44], [43, 20]]]"
proof -
  let ?P = "[[12, 200, 37, 41], [5, 66, 7, 180], [91, 10, 110, 12], [13, 140, 15, 17 :: int]]"
  have d: "dims 4 4 ?P" by (simp add: dims_list_all)
  have b: "\<forall>row\<in>set ?P. \<forall>p\<in>set row. \<bar>p\<bar> \<le> 2 ^ 40" by simp
  have e: "subband_of LPF LPF_center LPF LPF_center ([2, 3, 4, 5] ! 0) ?P = [[40, 39], [22, 29]]"
    "subband_of LPF LPF_center HPF HPF_center ([2, 3, 4, 5] ! 1) ?P = [[- 13, - 2], [10, - 5]]"
    "subband_of HPF HPF_center LPF LPF_center ([2, 3, 4, 5] ! 2) ?P = [[46, 28], [- 8, - 4]]"
    "subband_of HPF HPF_center HPF HPF_center ([2, 3, 4, 5] ! 3) ?P = [[4, 44], [43, 20]]"
    by code_simp+
  show ?thesis
    using dwt_subbands [of 4 4 ?P "[2, 3, 4, 5]"] d b e by simp
qed

section \<open>Verification: recursive decomposition\<close>

lemma py_index_0: "0 < n \<Longrightarrow> py_index n 0 = Some 0"
  by (simp add: py_index_def)

lemma py_index_less: "py_index n i = Some k \<Longrightarrow> k < n"
  by (auto simp: py_index_def split: if_splits)

lemma dwt_four:
  assumes "dims nrow ncol pixels" "2 \<le> nrow" "2 \<le> ncol" "length q = 4" "0 \<notin> set q"
  shows "dwt pixels q =
           Inr [subband_code LPF LPF_center LPF LPF_center (q ! 0) pixels,
                subband_code LPF LPF_center HPF HPF_center (q ! 1) pixels,
                subband_code HPF HPF_center LPF LPF_center (q ! 2) pixels,
                subband_code HPF HPF_center HPF HPF_center (q ! 3) pixels]"
proof -
  have nz: "q ! 0 \<noteq> 0" "q ! 1 \<noteq> 0" "q ! 2 \<noteq> 0" "q ! 3 \<noteq> 0"
    using assms(4,5) by (metis nth_mem numeral_less_iff zero_less_numeral
        one_less_numeral_iff semiring_norm)+
  show ?thesis using dwt_result [OF assms(1-4) nz] .
qed

lemma nested_spec_runs:
  assumes "fi \<noteq> []" "fi ! 0 = Leaf pixels" "dims (2 ^ Suc n) (2 ^ Suc n) pixels"
    and "length q = 4" "0 \<notin> set q"
  shows "snd (dwt_levels fi (nested_spec n) q) = None"
  using assms
proof (induction n arbitrary: fi pixels)
  case 0
  have "dwt pixels q = Inr [subband_code LPF LPF_center LPF LPF_center (q ! 0) pixels,
                subband_code LPF LPF_center HPF HPF_center (q ! 1) pixels,
                subband_code HPF HPF_center LPF LPF_center (q ! 2) pixels,
                subband_code HPF HPF_center HPF HPF_center (q ! 3) pixels]"
    using 0 by (intro dwt_four [of "2 ^ Suc 0" "2 ^ Suc 0"]) simp_all
  then show ?case using 0 by (simp add: py_index_0)
next
  case (Suc n)
  let ?LL = "subband_code LPF LPF_center LPF LPF_center (q ! 0) pixels"
  let ?bands = "[?LL,
                subband_code LPF LPF_center HPF HPF_center (q ! 1) pixels,
                subband_code HPF HPF_center LPF LPF_center (q ! 2) pixels,
                subband_code HPF HPF_center HPF HPF_center (q ! 3) pixels]"
  have two: "(2::nat) \<le> 2 ^ Suc (Suc n)" by simp
  have b: "dwt pixels q = Inr ?bands"
    using Suc.prems two by (intro dwt_four [of "2 ^ Suc (Suc n)" "2 ^ Suc (Suc n)"])
  have "dims (2 ^ Suc (Suc n) div 2) (2 ^ Suc (Suc n) div 2) ?LL"
    using Suc.prems(3) by (intro dims_subband_code) simp_all
  then have d': "dims (2 ^ Suc n) (2 ^ Suc n) ?LL" by simp
  have "snd (dwt_levels (map Leaf ?bands) (nested_spec n) q) = None"
    using Suc.prems(4,5) by (intro Suc.IH [OF _ _ d']) simp_all
  then obtain sub where "dwt_levels (map Leaf ?bands) (nested_spec n) q = (sub, None)"
    by (cases "dwt_levels (map Leaf ?bands) (nested_spec n) q") auto
  then show ?case using Suc.prems b by (simp add: py_index_0)
qed

text \<open>
  Claim C6, as stated, fails: \<open>dwt_levels\<close> does not look at the nesting depth. The
  specification \<open>[[0, [[0, [[0, [[0, [[0]]]]]]]]]]\<close> of depth 5 runs to the end without
  an exception on a list of four 32 by 32 subbands.
\<close>

theorem dwt_levels_depth_counterexample:
  "spec_depth [Level 0 (Some [Level 0 (Some [Level 0 (Some [Level 0 (Some [Level 0 None])])])])]
     = 5 \<and>
   snd (dwt_levels (replicate 4 (Leaf (replicate 32 (replicate 32 0))))
          [Level 0 (Some [Level 0 (Some [Level 0 (Some [Level 0 (Some [Level 0 None])])])])]
          [1, 1, 1, 1]) = None"
proof -
  have s: "[Level 0 (Some [Level 0 (Some [Level 0 (Some [Level 0 (Some [Level 0 None])])])])]
           = nested_spec 4"
    by (simp add: numeral_eq_Suc)
  have d: "dims (2 ^ Suc 4) (2 ^ Suc 4) (replicate 32 (replicate 32 (0::int)))"
    by (simp add: dims_def)
  have "snd (dwt_levels (replicate 4 (Leaf (replicate 32 (replicate 32 0)))) (nested_spec 4)
          [1, 1, 1, 1]) = None"
    by (rule nested_spec_runs [OF _ _ d]) simp_all
  moreover have "spec_depth (nested_spec 4) = 5"
    by (simp add: numeral_eq_Suc spec_depth_def)
  ultimately show ?thesis unfolding s by simp
qed

text \<open>
  Claim C6, amended. What \<open>dwt_levels\<close> asserts is the number of entries of the list
  of levels: a list of more than four levels is rejected at once with an
  AssertionError, before any decomposition, and the list of subbands is left as it
  was.
\<close>

theorem dwt_levels_rejects_long_level_list:
  assumes "4 < length levels"
  shows "dwt_levels filtered_image levels q = (filtered_image, Some AssertionError)"
  using assms by simp

theorem dwt_levels_rejects_long_level_list_witness:
  "4 < length [Level 0 None, Level 1 None, Level 2 None, Level 3 None, Level 0 None] \<and>
   dwt_levels [Leaf [[1, 2], [3, 4]], Leaf [[0, 0], [0, 0]], Leaf [[0, 0], [0, 0]],
               Leaf [[0, 0], [0, 0]]]
     [Level 0 None, Level 1 None, Level 2 None, Level 3 None, Level 0 None] [1, 1, 1, 1] =
   ([Leaf [[1, 2], [3, 4]], Leaf [[0, 0], [0, 0]], Leaf [[0, 0], [0, 0]],
     Leaf [[0, 0], [0, 0]]], Some AssertionError)"
  using dwt_levels_rejects_long_level_list
    [of "[Level 0 None, Level 1 None, Level 2 None, Level 3 None, Level 0 None]"
      "[Leaf [[1, 2], [3, 4]], Leaf [[0, 0], [0, 0]], Leaf [[0, 0], [0, 0]],
        Leaf [[0, 0], [0, 0]]]" "[1, 1, 1, 1]"]
  by simp

lemma nodes_kept_refl: "nodes_kept fi fi"
  by (simp add: nodes_kept_def)

lemma nodes_kept_trans: "nodes_kept a b \<Longrightarrow> nodes_kept b c \<Longrightarrow> nodes_kept a c"
  by (auto simp: nodes_kept_def)

lemma nodes_kept_update: "nodes_kept fi (fi[k := Node sub])"
proof -
  have "\<exists>s. fi[k := Node sub] ! j = Node s" if "j < length fi" "fi ! j = Node t" for j t
    using that by (cases "j = k") simp_all
  then show ?thesis by (auto simp: nodes_kept_def)
qed

lemma nodes_kept_update_trans:
  "nodes_kept (fi[k := Node sub]) fi' \<Longrightarrow> nodes_kept fi fi'"
  using nodes_kept_update nodes_kept_trans by blast

lemma dwt_levels_nodes_kept:
  "nodes_kept fi (fst (dwt_levels fi levels q))"
  "nodes_kept fi (fst (dwt_levels_loop fi levels q))"
proof (induction fi levels q and fi levels q rule: dwt_levels_dwt_levels_loop.induct)
  case (1 filtered_image levels quantization_Array)
  then show ?case by (simp add: nodes_kept_refl)
next
  case (2 filtered_image quantization_Array)
  then show ?case by (simp add: nodes_kept_refl)
next
  case (3 filtered_image index nested rest quantization_Array)
  show ?case
  proof (cases "py_index (length filtered_image) index")
    case None
    then show ?thesis by (simp add: nodes_kept_refl)
  next
    case (Some k)
    show ?thesis
    proof (cases "filtered_image ! k")
      case (Node sub)
      then show ?thesis using Some by (simp add: nodes_kept_refl)
    next
      case (Leaf pixels)
      show ?thesis
      proof (cases "dwt pixels quantization_Array")
        case (Inl e)
        then show ?thesis using Some Leaf by (simp add: nodes_kept_refl)
      next
        case (Inr bands)
        show ?thesis
        proof (cases nested)
          case None
          then show ?thesis
            using Some Leaf Inr "3.IH"(1) [OF Some Leaf Inr None]
            by (simp add: nodes_kept_update_trans)
        next
          case nest: (Some levels')
          obtain sub' r where rec:
            "dwt_levels (map Leaf bands) levels' quantization_Array = (sub', r)"
            by (cases "dwt_levels (map Leaf bands) levels' quantization_Array")
          show ?thesis
          proof (cases r)
            case None
            then show ?thesis
              using Some Leaf Inr nest rec
                "3.IH"(3) [OF Some Leaf Inr nest rec [symmetric] None]
              by (simp add: nodes_kept_update_trans)
          next
            case err: (Some e)
            show ?thesis
            proof (cases "e = IndexError")
              case True
              then show ?thesis
                using Some Leaf Inr nest rec err
                  "3.IH"(4) [OF Some Leaf Inr nest rec [symmetric] err True]
                by (simp add: nodes_kept_update_trans)
            next
              case False
              then show ?thesis
                using Some Leaf Inr nest rec err by (simp add: nodes_kept_update)
            qed
          qed
        qed
      qed
    qed
  qed
qed

lemma dwt_levels_first_slot:
  assumes "length (Level index nested # rest) \<le> 4"
    and "py_index (length fi) index = Some k" "fi ! k = Leaf pixels"
    and "dwt pixels q = Inr bands"
  shows "\<exists>sub. fst (dwt_levels fi (Level index nested # rest) q) ! k = Node sub"
proof -
  have k: "k < length fi" using assms(2) by (rule py_index_less)
  have keep: "\<exists>sub. fst (dwt_levels_loop (fi[k := Node x]) rest q) ! k = Node sub" for x
    using dwt_levels_nodes_kept(2) [of "fi[k := Node x]" rest q] k
    by (auto simp: nodes_kept_def)
  show ?thesis
  proof (cases nested)
    case None
    then show ?thesis using assms keep by simp
  next
    case (Some levels')
    obtain sub' r where rec: "dwt_levels (map Leaf bands) levels' q = (sub', r)"
      by (cases "dwt_levels (map Leaf bands) levels' q")
    show ?thesis
    proof (cases r)
      case None
      then show ?thesis using assms Some rec keep by simp
    next
      case err: (Some e)
      then show ?thesis using assms Some rec keep k by (cases "e = IndexError") simp_all
    qed
  qed
qed

lemma dwt_constant_block:
  "dwt [[8, 8, 8, 8], [8, 8, 8, 8], [8, 8, 8, 8], [8, 8, 8, 8]] [1, 1, 1, 1] =
     Inr [[[8, 8], [8, 8]], [[0, 0], [0, 0]], [[0, 0], [0, 0]], [[0, 0], [0, 0]]]"
proof -
  let ?P = "[[8, 8, 8, 8], [8, 8, 8, 8], [8, 8, 8, 8], [8, 8, 8, 8 :: int]]"
  have d: "dims 4 4 ?P" by (simp add: dims_list_all)
  have g: "filtered_grid LPF LPF_center LPF LPF_center ?P = [[8, 8], [8, 8]]"
    "filtered_grid LPF LPF_center HPF HPF_center ?P = [[0, 0], [0, 0]]"
    "filtered_grid HPF HPF_center LPF LPF_center ?P = [[0, 0], [0, 0]]"
    "filtered_grid HPF HPF_center HPF HPF_center ?P = [[0, 0], [0, 0]]"
    by code_simp+
  show ?thesis
    using dwt_result [OF d, of "[1, 1, 1, 1]"]
    by (simp add: subband_code_filtered g quantize_small)
qed

lemma subbands_constant_image:
  "subband_code LPF LPF_center LPF LPF_center 1 (replicate 8 (replicate 8 8)) =
     [[8, 8, 8, 8], [8, 8, 8, 8], [8, 8, 8, 8], [8, 8, 8, 8]]"
  "subband_code LPF LPF_center HPF HPF_center 1 (replicate 8 (replicate 8 8)) =
     [[0, 0, 0, 0], [0, 0, 0, 0], [0, 0, 0, 0], [0, 0, 0, 0]]"
  "subband_code HPF HPF_center LPF LPF_center 1 (replicate 8 (replicate 8 8)) =
     [[0, 0, 0, 0], [0, 0, 0, 0], [0, 0, 0, 0], [0, 0, 0, 0]]"
  "subband_code HPF HPF_center HPF HPF_center 1 (replicate 8 (replicate 8 8)) =
     [[0, 0, 0, 0], [0, 0, 0, 0], [0, 0, 0, 0], [0, 0, 0, 0]]"
proof -
  let ?P = "replicate 8 (replicate 8 (8 :: int))"
  have g: "filtered_grid LPF LPF_center LPF LPF_center ?P =
             [[8, 8, 8, 8], [8, 8, 8, 8], [8, 8, 8, 8], [8, 8, 8, 8]]"
    "filtered_grid LPF LPF_center HPF HPF_center ?P =
             [[0, 0, 0, 0], [0, 0, 0, 0], [0, 0, 0, 0], [0, 0, 0, 0]]"
    "filtered_grid HPF HPF_center LPF LPF_center ?P =
             [[0, 0, 0, 0], [0, 0, 0, 0], [0, 0, 0, 0], [0, 0, 0, 0]]"
    "filtered_grid HPF HPF_center HPF HPF_center ?P =
             [[0, 0, 0, 0], [0, 0, 0, 0], [0, 0, 0, 0], [0, 0, 0, 0]]"
    by code_simp+
  show "subband_code LPF LPF_center LPF LPF_center 1 (replicate 8 (replicate 8 8)) =
     [[8, 8, 8, 8], [8, 8, 8, 8], [8, 8, 8, 8], [8, 8, 8, 8]]"
    "subband_code LPF LPF_center HPF HPF_center 1 (replicate 8 (replicate 8 8)) =
     [[0, 0, 0, 0], [0, 0, 0, 0], [0, 0, 0, 0], [0, 0, 0, 0]]"
    "subband_code HPF HPF_center LPF LPF_center 1 (replicate 8 (replicate 8 8)) =
     [[0, 0, 0, 0], [0, 0, 0, 0], [0, 0, 0, 0], [0, 0, 0, 0]]"
    "subband_code HPF HPF_center HPF HPF_center 1 (replicate 8 (replicate 8 8)) =
     [[0, 0, 0, 0], [0, 0, 0, 0], [0, 0, 0, 0], [0, 0, 0, 0]]"
    by (simp_all add: subband_code_filtered g quantize_small)
qed

text \<open>
  Claim C9, as stated, fails for \<open>dwt_levels\<close>: applied to the four subbands \<open>dwt\<close>
  returns for a constant 8 by 8 image, with the specification \<open>[[0]]\<close>, it leaves a
  different list behind, with the nested decomposition in slot 0.
\<close>

theorem dwt_levels_in_place_counterexample:
  "dwt (replicate 8 (replicate 8 8)) [1, 1, 1, 1] =
     Inr [[[8, 8, 8, 8], [8, 8, 8, 8], [8, 8, 8, 8], [8, 8, 8, 8]],
          [[0, 0, 0, 0], [0, 0, 0, 0], [0, 0, 0, 0], [0, 0, 0, 0]],
          [[0, 0, 0, 0], [0, 0, 0, 0], [0, 0, 0, 0], [0, 0, 0, 0]],
          [[0, 0, 0, 0], [0, 0, 0, 0], [0, 0, 0, 0], [0, 0, 0, 0]]] \<and>
   dwt_levels
     [Leaf [[8, 8, 8, 8], [8, 8, 8, 8], [8, 8, 8, 8], [8, 8, 8, 8]],
      Leaf [[0, 0, 0, 0], [0, 0, 0, 0], [0, 0, 0, 0], [0, 0, 0, 0]],
      Leaf [[0, 0, 0, 0], [0, 0, 0, 0], [0, 0, 0, 0], [0, 0, 0, 0]],
      Leaf [[0, 0, 0, 0], [0, 0, 0, 0], [0, 0, 0, 0], [0, 0, 0, 0]]]
     [Level 0 None] [1, 1, 1, 1] =
   ([Node [Leaf [[8, 8], [8, 8]], Leaf [[0, 0], [0, 0]], Leaf [[0, 0], [0, 0]], Leaf [[0, 0], [0, 0]]],
     Leaf [[0, 0, 0, 0], [0, 0, 0, 0], [0, 0, 0, 0], [0, 0, 0, 0]],
     Leaf [[0, 0, 0, 0], [0, 0, 0, 0], [0, 0, 0, 0], [0, 0, 0, 0]],
     Leaf [[0, 0, 0, 0], [0, 0, 0, 0], [0, 0, 0, 0], [0, 0, 0, 0]]], None)"
proof -
  have d: "dims 8 8 (replicate 8 (replicate 8 (8::int)))" by (simp add: dims_def)
  have "dwt (replicate 8 (replicate 8 8)) [1, 1, 1, 1] =
     Inr [[[8, 8, 8, 8], [8, 8, 8, 8], [8, 8, 8, 8], [8, 8, 8, 8]],
          [[0, 0, 0, 0], [0, 0, 0, 0], [0, 0, 0, 0], [0, 0, 0, 0]],
          [[0, 0, 0, 0], [0, 0, 0, 0], [0, 0, 0, 0], [0, 0, 0, 0]],
          [[0, 0, 0, 0], [0, 0, 0, 0], [0, 0, 0, 0], [0, 0, 0, 0]]]"
    using dwt_four [OF d, of "[1, 1, 1, 1]"] by (simp add: subbands_constant_image)
  then show ?thesis by (simp add: dwt_constant_block py_index_def)
qed

text \<open>
  Claim C9, amended. \<open>dwt\<close> never changes the caller's pixel array, whether it returns
  or raises. \<open>dwt_levels\<close> returns nothing and works in place: when the list of levels
  passes the assertion and \<open>dwt\<close> succeeds on the slot its first level names, that
  slot of the caller's list holds a nested list after the call, so the list the
  caller passed has changed.
\<close>

theorem dwt_reads_dwt_levels_writes:
  "fst (dwt_run s q) image_array = s image_array \<and>
   (length (Level index nested # rest) \<le> 4 \<and> py_index (length fi) index = Some k \<and>
    fi ! k = Leaf pixels \<and> dwt pixels q' = Inr bands \<longrightarrow>
      (\<exists>sub. fst (dwt_levels fi (Level index nested # rest) q') ! k = Node sub) \<and>
      fst (dwt_levels fi (Level index nested # rest) q') \<noteq> fi)"
proof (intro conjI impI)
  show "fst (dwt_run s q) image_array = s image_array" by (rule dwt_run_image_array)
next
  assume a: "length (Level index nested # rest) \<le> 4 \<and> py_index (length fi) index = Some k \<and>
    fi ! k = Leaf pixels \<and> dwt pixels q' = Inr bands"
  then show n: "\<exists>sub. fst (dwt_levels fi (Level index nested # rest) q') ! k = Node sub"
    using dwt_levels_first_slot [of index nested rest fi k pixels q' bands] by blast
  show "fst (dwt_levels fi (Level index nested # rest) q') \<noteq> fi"
    using n a by auto
qed

theorem dwt_reads_dwt_levels_writes_witness:
  "fst (dwt_run (load [[8, 8, 8, 8], [8, 8, 8, 8], [8, 8, 8, 8], [8, 8, 8, 8]]) [1, 1, 1, 1])
     image_array = load [[8, 8, 8, 8], [8, 8, 8, 8], [8, 8, 8, 8], [8, 8, 8, 8]] image_array \<and>
   length [Level 0 None] \<le> 4 \<and>
   py_index (length [Leaf [[8, 8, 8, 8], [8, 8, 8, 8], [8, 8, 8, 8], [8, 8, 8, 8]],
      Leaf [[0, 0, 0, 0], [0, 0, 0, 0], [0, 0, 0, 0], [0, 0, 0, 0]],
      Leaf [[0, 0, 0, 0], [0, 0, 0, 0], [0, 0, 0, 0], [0, 0, 0, 0]],
      Leaf [[0, 0, 0, 0], [0, 0, 0, 0], [0, 0, 0, 0], [0, 0, 0, 0]]]) 0 = Some 0 \<and>
   dwt [[8, 8, 8, 8], [8, 8, 8, 8], [8, 8, 8, 8], [8, 8, 8, 8]] [1, 1, 1, 1] =
     Inr [[[8, 8], [8, 8]], [[0, 0], [0, 0]], [[0, 0], [0, 0]], [[0, 0], [0, 0]]] \<and>
   (\<exists>sub. fst (dwt_levels
      [Leaf [[8, 8, 8, 8], [8, 8, 8, 8], [8, 8, 8, 8], [8, 8, 8, 8]],
      Leaf [[0, 0, 0, 0], [0, 0, 0, 0], [0, 0, 0, 0], [0, 0, 0, 0]],
      Leaf [[0, 0, 0, 0], [0, 0, 0, 0], [0, 0, 0, 0], [0, 0, 0, 0]],
      Leaf [[0, 0, 0, 0], [0, 0, 0, 0], [0, 0, 0, 0], [0, 0, 0, 0]]]
      [Level 0 None] [1, 1, 1, 1]) ! 0 = Node sub)"
proof -
  have p: "py_index (length [Leaf [[8, 8, 8, 8], [8, 8, 8, 8], [8, 8, 8, 8], [8, 8, 8, 8]],
      Leaf [[0, 0, 0, 0], [0, 0, 0, 0], [0, 0, 0, 0], [0, 0, 0, 0]],
      Leaf [[0, 0, 0, 0], [0, 0, 0, 0], [0, 0, 0, 0], [0, 0, 0, 0]],
      Leaf [[0, 0, 0, 0], [0, 0, 0, 0], [0, 0, 0, 0], [0, 0, 0, 0]]]) 0 = Some 0"
    by (simp add: py_index_def)
  show ?thesis
    using dwt_reads_dwt_levels_writes
      [of "load [[8, 8, 8, 8], [8, 8, 8, 8], [8, 8, 8, 8], [8, 8, 8, 8]]" "[1, 1, 1, 1]" 0 None "[]"
        "[Leaf [[8, 8, 8, 8], [8, 8, 8, 8], [8, 8, 8, 8], [8, 8, 8, 8]],
      Leaf [[0, 0, 0, 0], [0, 0, 0, 0], [0, 0, 0, 0], [0, 0, 0, 0]],
      Leaf [[0, 0, 0, 0], [0, 0, 0, 0], [0, 0, 0, 0], [0, 0, 0, 0]],
      Leaf [[0, 0, 0, 0], [0, 0, 0, 0], [0, 0, 0, 0], [0, 0, 0, 0]]]" 0
        "[[8, 8, 8, 8], [8, 8, 8, 8], [8, 8, 8, 8], [8, 8, 8, 8]]" "[1, 1, 1, 1]"
        "[[[8, 8], [8, 8]], [[0, 0], [0, 0]], [[0, 0], [0, 0]], [[0, 0], [0, 0]]]"]
      dwt_constant_block p
    by simp
qed

section \<open>Verification: flattening the subband tree\<close>

lemma record_total_flatten: "record_total (record_of ser t) = length (flatten ser t)"
  by (induction t) (simp_all add: length_concat comp_def cong: map_cong)

lemma dwt_serialize_append:
  "dwt_serialize ser ts out lens =
     (out @ concat (map (flatten ser) ts), lens @ map (record_of ser) ts)"
  by (induction ser ts out lens rule: dwt_serialize.induct) (simp_all add: Let_def)

text \<open>
  Claim C3. For every nested list of leaf arrays, the length record returned by
  \<open>dwt_serialize\<close> (called, as documented, with two empty lists) is the tree with each
  leaf replaced by the number of coefficients that leaf contributed, and the
  integers of the record add up to the length of the returned stream.
\<close>

theorem dwt_serialize_length_record:
  "snd (dwt_serialize serialize tree [] []) = map (record_of serialize) tree \<and>
   sum_list (map record_total (snd (dwt_serialize serialize tree [] []))) =
     length (fst (dwt_serialize serialize tree [] []))"
  by (simp add: dwt_serialize_append length_concat comp_def record_total_flatten)

section \<open>Verification: block deserialization\<close>

lemma dims_update:
  assumes "dims r c M"
  shows "dims r c (M[i := (M ! i)[j := x]])"
proof -
  have "length (M[i := (M ! i)[j := x]] ! k) = c" if "k < r" for k
    using assms that by (cases "k = i") (simp_all add: dims_def)
  then show ?thesis using assms by (simp add: dims_def)
qed

lemma nth_nth_update:
  "dims r c M \<Longrightarrow> i < r \<Longrightarrow> j < c \<Longrightarrow> i' < r \<Longrightarrow> j' < c \<Longrightarrow>
   (M[i := (M ! i)[j := x]]) ! i' ! j' = (if i' = i \<and> j' = j then x else M ! i' ! j')"
  by (auto simp: dims_def nth_list_update)

lemma store_accepted:
  assumes "all_accepted ver s" "step < length (tokens s)"
  shows "store_int16 ver s (tokens s ! step) = Inr (word_of_int (tokens s ! step))"
  using assms by (simp add: all_accepted_def store_int16_def list_all_length)

lemma fill_block_result:
  assumes "dims r c M" "list_all (\<lambda>(i, j). i < r \<and> j < c) ps" "distinct ps"
    and "step + length ps \<le> length (tokens s)" "all_accepted ver s"
  shows "\<exists>M'. fill_block ver ps M s step = Inr (M', step + length ps) \<and> dims r c M' \<and>
           (\<forall>k<length ps. M' ! fst (ps ! k) ! snd (ps ! k) = word_of_int (tokens s ! (step + k))) \<and>
           (\<forall>i<r. \<forall>j<c. (i, j) \<notin> set ps \<longrightarrow> M' ! i ! j = M ! i ! j)"
  using assms
proof (induction ps arbitrary: M step)
  case Nil
  then show ?case by simp
next
  case (Cons p ps)
  obtain i j where p: "p = (i, j)" by (cases p)
  let ?M1 = "M[i := (M ! i)[j := word_of_int (tokens s ! step)]]"
  have ij: "i < r" "j < c" using Cons.prems(2) p by auto
  have d1: "dims r c ?M1" using Cons.prems(1) by (rule dims_update)
  have "\<exists>M'. fill_block ver ps ?M1 s (Suc step) = Inr (M', Suc step + length ps) \<and> dims r c M' \<and>
           (\<forall>k<length ps. M' ! fst (ps ! k) ! snd (ps ! k) = word_of_int (tokens s ! (Suc step + k))) \<and>
           (\<forall>i<r. \<forall>j<c. (i, j) \<notin> set ps \<longrightarrow> M' ! i ! j = ?M1 ! i ! j)"
    using Cons.prems by (intro Cons.IH d1) auto
  then obtain M' where M': "fill_block ver ps ?M1 s (Suc step) = Inr (M', Suc step + length ps)"
    "dims r c M'"
    "\<forall>k<length ps. M' ! fst (ps ! k) ! snd (ps ! k) = word_of_int (tokens s ! (Suc step + k))"
    "\<forall>i<r. \<forall>j<c. (i, j) \<notin> set ps \<longrightarrow> M' ! i ! j = ?M1 ! i ! j"
    by blast
  have run: "fill_block ver (p # ps) M s step = Inr (M', step + length (p # ps))"
    using M'(1) Cons.prems(1,4) ij p store_accepted [OF Cons.prems(5), of step]
    by (simp add: dims_def)
  have first: "M' ! i ! j = word_of_int (tokens s ! step)"
  proof -
    have "(i, j) \<notin> set ps" using Cons.prems(3) p by simp
    then have "M' ! i ! j = ?M1 ! i ! j" using M'(4) ij by blast
    then show ?thesis using nth_nth_update [OF Cons.prems(1) ij ij] by simp
  qed
  have written: "\<forall>k<length (p # ps).
      M' ! fst ((p # ps) ! k) ! snd ((p # ps) ! k) = word_of_int (tokens s ! (step + k))"
  proof (intro allI impI)
    fix k assume "k < length (p # ps)"
    then show "M' ! fst ((p # ps) ! k) ! snd ((p # ps) ! k) = word_of_int (tokens s ! (step + k))"
      using first M'(3) p by (cases k) auto
  qed
  have kept: "\<forall>i'<r. \<forall>j'<c. (i', j') \<notin> set (p # ps) \<longrightarrow> M' ! i' ! j' = M ! i' ! j'"
  proof (intro allI impI)
    fix i' j' assume b: "i' < r" "j' < c" and n: "(i', j') \<notin> set (p # ps)"
    then have "M' ! i' ! j' = ?M1 ! i' ! j'" using M'(4) by simp
    also have "\<dots> = M ! i' ! j'"
      using nth_nth_update [OF Cons.prems(1) ij b] n p by auto
    finally show "M' ! i' ! j' = M ! i' ! j'" .
  qed
  show ?case using run M'(2) written kept by blast
qed

lemma fill_blocks_result:
  assumes "\<forall>M\<in>set Ms. dims r c M" "list_all (\<lambda>(i, j). i < r \<and> j < c) ps" "distinct ps"
    and "step + length Ms * length ps \<le> length (tokens s)" "all_accepted ver s"
  shows "\<exists>out. fill_blocks ver ps Ms s step = Inr out \<and> length out = length Ms \<and>
           (\<forall>b<length Ms. \<forall>k<length ps.
              out ! b ! fst (ps ! k) ! snd (ps ! k) =
                word_of_int (tokens s ! (step + b * length ps + k)))"
  using assms
proof (induction Ms arbitrary: step)
  case Nil
  then show ?case by simp
next
  case (Cons M Ms)
  have "step + length ps \<le> length (tokens s)" using Cons.prems(4) by simp
  with fill_block_result [where ver = ver and r = r and c = c and M = M and ps = ps and step = step and s = s] Cons.prems
  obtain M' where M': "fill_block ver ps M s step = Inr (M', step + length ps)"
    "\<forall>k<length ps. M' ! fst (ps ! k) ! snd (ps ! k) = word_of_int (tokens s ! (step + k))"
    by auto
  have "\<exists>out. fill_blocks ver ps Ms s (step + length ps) = Inr out \<and> length out = length Ms \<and>
           (\<forall>b<length Ms. \<forall>k<length ps.
              out ! b ! fst (ps ! k) ! snd (ps ! k) =
                word_of_int (tokens s ! (step + length ps + b * length ps + k)))"
    using Cons.prems by (intro Cons.IH) (auto simp: algebra_simps)
  then obtain out where out: "fill_blocks ver ps Ms s (step + length ps) = Inr out"
    "length out = length Ms"
    "\<forall>b<length Ms. \<forall>k<length ps.
              out ! b ! fst (ps ! k) ! snd (ps ! k) =
                word_of_int (tokens s ! (step + length ps + b * length ps + k))"
    by blast
  have run: "fill_blocks ver ps (M # Ms) s step = Inr (M' # out)" using M'(1) out(1) by simp
  have "\<forall>b<length (M # Ms). \<forall>k<length ps.
              (M' # out) ! b ! fst (ps ! k) ! snd (ps ! k) =
                word_of_int (tokens s ! (step + b * length ps + k))"
  proof (intro allI impI)
    fix b k assume "b < length (M # Ms)" "k < length ps"
    then show "(M' # out) ! b ! fst (ps ! k) ! snd (ps ! k) =
                word_of_int (tokens s ! (step + b * length ps + k))"
      using M'(2) out(3) by (cases b) (auto simp: algebra_simps)
  qed
  then show ?case using run out(2) by simp
qed

lemma sint_int16: "sint (word_of_int v :: int16) = (v + 32768) mod 65536 - 32768"
  using int_word_sint [of v, where 'a = 16] by simp

lemma dims_zeros: "dims r c (replicate r (replicate c x))"
  by (simp add: dims_def)

text \<open>A numpy array is converted whatever it holds, in either version.\<close>

lemma all_accepted_ndarray: "all_accepted version (ndarray ws)"
  by (simp add: all_accepted_def list_all_iff)

text \<open>On NumPy 1.x the Python ints of a list are wrapped like the elements of an array.\<close>

lemma deserialize_python_list_numpy1:
  "deserialize NumPy1 (\<lambda>r c. [(0, 0), (0, 1), (1, 0), (1, 1)])
     (python_list [1, 40000, - 32769, 7]) 1 2 2 = Inr [[[1, - 25536], [32767, 7]]]"
  by code_simp

text \<open>
  Claim C10, as stated, fails for a stream that is a Python list: NumPy 2 rejects a
  Python int outside the int16 range with an OverflowError instead of wrapping it.
\<close>

theorem deserialize_python_int_counterexample:
  "deserialize NumPy2 (\<lambda>r c. [(0, 0), (0, 1), (1, 0), (1, 1)])
     (python_list [1, 40000, - 32769, 7]) 1 2 2 = Inl OverflowError"
  by (simp add: deserialize_def store_int16_def)

text \<open>
  Claim C10, amended. The blocks \<open>deserialize\<close> returns hold 16-bit signed integers.
  When the stream is a numpy array of 64-bit integers, as the docstring asks (or a
  Python list whose ints the NumPy in use converts: any 64-bit value before NumPy 2,
  only values already in the int16 range from NumPy 2 on), and it covers all
  blocks, then for a scan order that visits each position of the block once the
  entry at the \<open>k\<close>-th scan position of block \<open>b\<close> is the stream value at index
  \<open>b * (scan length) + k\<close> reduced modulo \<open>2^16\<close> into \<open>[-32768, 32767]\<close>: a value
  outside the int16 range is wrapped, not kept and not rejected.
\<close>

theorem deserialize_narrows_to_int16:
  assumes "scan_order n_rows n_cols (zigzag n_rows n_cols)"
    and "n_blocks * length (zigzag n_rows n_cols) \<le> length (tokens serialized)"
    and "all_accepted version serialized"
    and "b < n_blocks" "k < length (zigzag n_rows n_cols)"
  shows "\<exists>out. deserialize version zigzag serialized n_blocks n_rows n_cols = Inr out \<and>
           length out = n_blocks \<and>
           sint (out ! b ! fst (zigzag n_rows n_cols ! k) ! snd (zigzag n_rows n_cols ! k)) =
             (tokens serialized ! (b * length (zigzag n_rows n_cols) + k) + 32768) mod 65536
               - 32768"
proof -
  let ?ps = "zigzag n_rows n_cols"
  let ?Ms = "replicate n_blocks (replicate n_rows (replicate n_cols (0 :: int16)))"
  have "\<forall>M\<in>set ?Ms. dims n_rows n_cols M" by (simp add: dims_zeros)
  moreover have "list_all (\<lambda>(i, j). i < n_rows \<and> j < n_cols) ?ps" "distinct ?ps"
    using assms(1) by (simp_all add: scan_order_def)
  moreover have "0 + length ?Ms * length ?ps \<le> length (tokens serialized)"
    using assms(2) by simp
  ultimately obtain out where out: "fill_blocks version ?ps ?Ms serialized 0 = Inr out"
    "length out = length ?Ms"
    "\<forall>b<length ?Ms. \<forall>k<length ?ps.
        out ! b ! fst (?ps ! k) ! snd (?ps ! k) =
          word_of_int (tokens serialized ! (0 + b * length ?ps + k))"
    using fill_blocks_result [of ?Ms n_rows n_cols ?ps 0 serialized version] assms(3) by blast
  have "out ! b ! fst (?ps ! k) ! snd (?ps ! k) =
          word_of_int (tokens serialized ! (b * length ?ps + k))"
    using out(3) assms(4,5) by simp
  then show ?thesis using out(1,2) by (simp add: deserialize_def sint_int16)
qed

theorem deserialize_narrows_to_int16_witness:
  "scan_order 2 2 [(0, 0), (0, 1), (1, 0), (1, 1)] \<and>
   1 * length [(0, 0), (0, 1), (1, 0), (1, 1 :: nat) :: nat \<times> nat]
     \<le> length (tokens (ndarray [1, 40000, - 32769, 7])) \<and>
   all_accepted NumPy2 (ndarray [1, 40000, - 32769, 7]) \<and>
   (\<exists>out. deserialize NumPy2 (\<lambda>r c. [(0, 0), (0, 1), (1, 0), (1, 1)])
            (ndarray [1, 40000, - 32769, 7]) 1 2 2 = Inr out \<and>
          length out = 1 \<and> sint (out ! 0 ! 0 ! 1) = - 25536)"
proof -
  have h: "scan_order 2 2 [(0, 0), (0, 1), (1, 0), (1, 1)]"
    by (simp add: scan_order_def)
  have a: "all_accepted NumPy2 (ndarray [1, 40000, - 32769, 7])"
    by (simp add: all_accepted_def)
  show ?thesis
    using deserialize_narrows_to_int16
      [of 2 2 "\<lambda>r c. [(0, 0), (0, 1), (1, 0), (1, 1)]" 1 "ndarray [1, 40000, - 32769, 7]"
        NumPy2 0 1] h a
    by simp
qed

section \<open>Verification: run-length decoding\<close>

lemma run_length_loop_scan:
  "run_length_loop (pre @ s) (length pre) acc =
     (if rl_trailing_marker s then Inl IndexError else Inr (acc @ rl_expand s))"
proof (induction s arbitrary: pre acc rule: rl_expand.induct)
  case 1
  show ?case by (simp add: run_length_loop.simps)
next
  case (2 x)
  show ?case
    by (simp add: run_length_loop.simps [of "pre @ [x]" "length pre"]
        run_length_loop.simps [of "pre @ [x]" "Suc (length pre)"])
next
  case (3 x n rest)
  show ?case
  proof (cases "x = 0")
    case True
    have "run_length_loop ((pre @ [x, n]) @ rest) (length (pre @ [x, n]))
            (acc @ replicate (nat (n + 1)) 0) =
          (if rl_trailing_marker rest then Inl IndexError
           else Inr ((acc @ replicate (nat (n + 1)) 0) @ rl_expand rest))"
      using 3(1) [OF True] .
    then show ?thesis using True
      by (subst run_length_loop.simps) (simp add: nth_append)
  next
    case False
    have "run_length_loop ((pre @ [x]) @ n # rest) (length (pre @ [x])) (acc @ [x]) =
          (if rl_trailing_marker (n # rest) then Inl IndexError
           else Inr ((acc @ [x]) @ rl_expand (n # rest)))"
      using 3(2) [OF False] .
    then show ?thesis using False
      by (subst run_length_loop.simps) (simp add: nth_append)
  qed
qed

lemma run_length_decode_scan:
  "run_length_decode s = (if rl_trailing_marker s then Inl IndexError else Inr (rl_expand s))"
  using run_length_loop_scan [of "[]" s "[]"] by (simp add: run_length_decode_def)

lemma rl_wellformed_no_trailing: "rl_wellformed s \<Longrightarrow> \<not> rl_trailing_marker s"
  by (induction s rule: rl_expand.induct) (auto split: if_splits)

lemma rl_expand_length:
  "rl_wellformed s \<Longrightarrow>
   int (length (rl_expand s)) = int (rl_literals s) + (\<Sum>n\<leftarrow>rl_counts s. n + 1)"
  by (induction s rule: rl_expand.induct) (auto split: if_splits)

text \<open>
  Claim C4. On a stream in which every marker \<open>0\<close> is followed by a count,
  \<open>run_length_decode\<close> returns the left-to-right expansion (a marker and its count \<open>n\<close>
  become \<open>n + 1\<close> zeros, any other token stays), and the length of the output is the
  number of non-zero tokens plus the sum of \<open>n + 1\<close> over the marker pairs.
\<close>

theorem run_length_decode_correct:
  assumes "rl_wellformed s"
  shows "run_length_decode s = Inr (rl_expand s) \<and>
         int (length (rl_expand s)) = int (rl_literals s) + (\<Sum>n\<leftarrow>rl_counts s. n + 1)"
  using assms by (simp add: run_length_decode_scan rl_wellformed_no_trailing rl_expand_length)

theorem run_length_decode_correct_witness:
  "rl_wellformed [5, 0, 2, -3, 0, 0, 7] \<and>
   run_length_decode [5, 0, 2, -3, 0, 0, 7] = Inr [5, 0, 0, 0, -3, 0, 7] \<and>
   int (length [5, 0, 0, 0, -3, 0, 7 :: int]) = 3 + (3 + 1)"
  using run_length_decode_correct [of "[5, 0, 2, -3, 0, 0, 7]"] by (simp add: numeral_eq_Suc)

text \<open>
  Claim C8. When the scan ends on a marker \<open>0\<close> with no token after it, the read of
  the count is out of range and \<open>run_length_decode\<close> raises IndexError; nothing is
  returned.
\<close>

theorem run_length_decode_trailing_marker:
  "rl_trailing_marker s \<Longrightarrow> run_length_decode s = Inl IndexError"
  by (simp add: run_length_decode_scan)

theorem run_length_decode_trailing_marker_witness:
  "rl_trailing_marker [4, 0, 1, 0] \<and> run_length_decode [4, 0, 1, 0] = Inl IndexError"
  using run_length_decode_trailing_marker [of "[4, 0, 1, 0]"] by simp

section \<open>Verification: quantization\<close>

lemma quantize_near:
  assumes "0 < d" "d \<le> 2 ^ 53" "\<bar>v\<bar> \<le> 2 ^ 53"
  shows "\<bar>quantize (of_int v) d * d - v\<bar> \<le> d"
proof -
  have fd: "float64 (of_int d) = of_int d" using assms(1,2) by (intro float64_of_int) simp
  let ?q = "(of_int v :: rat) / of_int d"
  let ?Q = "np_round (float64 ?q)"
  have Q: "quantize (of_int v) d = ?Q" by (simp add: quantize_def fd)
  have dpos: "(0::rat) < of_int d" using assms(1) by simp
  show ?thesis
  proof (cases "d = 1 \<or> v = 0")
    case True
    then show ?thesis
    proof
      assume d1: "d = 1"
      have "?Q = v" using float64_of_int [OF assms(3)] by (simp add: d1)
      then show ?thesis unfolding Q by (simp add: d1)
    next
      assume v0: "v = 0"
      have "?Q = 0" by (simp add: v0 float64_def np_round_def)
      then show ?thesis unfolding Q using assms(1) by (simp add: v0)
    qed
  next
    case False
    then have d2: "2 \<le> d" and vnz: "v \<noteq> 0" using assms(1) by auto
    have v1: "(1::rat) \<le> \<bar>of_int v\<bar>"
      using vnz by (metis of_int_abs of_int_1_le_iff abs_ge_zero linorder_not_le
        zero_less_abs_iff zless_imp_add1_zle add_0)
    have vb: "\<bar>of_int v :: rat\<bar> \<le> 2 ^ 53"
      using assms(3) by (metis of_int_abs of_int_le_iff of_int_numeral of_int_power)
    have db: "(of_int d :: rat) \<le> 2 ^ 53"
      using assms(2) by (metis of_int_le_iff of_int_numeral of_int_power)
    have qabs: "\<bar>?q\<bar> = \<bar>of_int v\<bar> / of_int d" using dpos by (simp add: abs_mult)
    have "1 / 2 ^ 53 \<le> \<bar>?q\<bar>"
      unfolding qabs using v1 db dpos by (intro frac_le) simp_all
    moreover have "(2::rat) powi (- 1022) \<le> 2 powi (- 53)"
      by (intro power_int_increasing) simp_all
    moreover have "(2::rat) powi (- 53) = 1 / 2 ^ 53" by (simp add: power_int_minus)
    ultimately have "2 powi (- 1022) \<le> \<bar>?q\<bar>" by linarith
    then have "\<bar>float64 ?q - ?q\<bar> \<le> \<bar>?q\<bar> / 2 ^ 53" by (rule float64_error)
    also have "\<dots> = (\<bar>of_int v\<bar> / 2 ^ 53) / of_int d" by (subst qabs) simp
    also have "\<dots> \<le> 1 / of_int d"
      using vb dpos by (intro divide_right_mono) simp_all
    finally have e1: "\<bar>float64 ?q - ?q\<bar> \<le> 1 / of_int d" .
    have e2: "\<bar>of_int ?Q - float64 ?q\<bar> \<le> 1 / 2" by (rule np_round_near)
    have "\<bar>of_int ?Q - ?q\<bar> \<le> 1 / 2 + 1 / of_int d" using e1 e2 by linarith
    then have "\<bar>of_int ?Q - ?q\<bar> * of_int d \<le> (1 / 2 + 1 / of_int d) * of_int d"
      using dpos by (intro mult_right_mono) simp_all
    also have "\<dots> = of_int d / 2 + 1" using dpos by (simp add: field_simps)
    also have "\<dots> \<le> of_int d"
    proof -
      have "(2::rat) \<le> of_int d" using d2 by (metis of_int_le_iff of_int_numeral)
      then show ?thesis by simp
    qed
    finally have b: "\<bar>of_int ?Q - ?q\<bar> * of_int d \<le> of_int d" .
    have "(of_int ?Q - ?q) * of_int d = of_int (?Q * d - v)"
      using dpos by (simp add: field_simps)
    then have "\<bar>of_int ?Q - ?q\<bar> * of_int d = \<bar>of_int (?Q * d - v) :: rat\<bar>"
      using dpos by (metis abs_mult abs_of_pos)
    then have "\<bar>of_int (?Q * d - v) :: rat\<bar> \<le> of_int d" using b by simp
    then have "\<bar>?Q * d - v\<bar> \<le> d" by (metis of_int_abs of_int_le_iff)
    then show ?thesis by (simp only: Q)
  qed
qed

lemma sint_product:
  assumes "\<bar>a * b\<bar> < 2 ^ 63"
  shows "sint (word_of_int a * word_of_int b :: int64) = a * b"
proof -
  have "word_of_int a * word_of_int b = (word_of_int (a * b) :: int64)" by simp
  moreover have "sint (word_of_int (a * b) :: int64) = (a * b + 2 ^ 63) mod 2 ^ 64 - 2 ^ 63"
    using int_word_sint [of "a * b", where 'a = 64] by simp
  moreover have "(a * b + 2 ^ 63) mod 2 ^ 64 = a * b + 2 ^ 63"
  proof (intro mod_pos_pos_trivial)
    show "0 \<le> a * b + 2 ^ 63" using assms by linarith
    have "a * b < 2 ^ 63" using assms by linarith
    then show "a * b + 2 ^ 63 < 2 ^ 64" by simp
  qed
  ultimately show ?thesis by simp
qed

lemma multiply_same_shape:
  assumes "dims r c A" "dims r c B" "0 < r"
  shows "multiply A B = Inr (map2 (map2 (*)) A B)"
proof -
  have sh: "shape A = (r, c)" "shape B = (r, c)" using assms by (simp_all add: shape_dims)
  have "map (stretch c) A = A" "map (stretch c) B = B"
    using assms(1,2) by (auto simp: dims_def stretch_def intro!: map_idI dest: in_set_conv_nth [THEN iffD1])
  moreover have "length A = r" "length B = r" using assms by (simp_all add: dims_def)
  ultimately show ?thesis by (simp add: multiply_def sh broadcast_axis_def stretch_def)
qed

text \<open>
  Claim C5, as stated for every integer value, fails in double precision. The value
  \<open>v = 2^56 + 16 = 72057594037927952\<close> is a double; \<open>v / 3\<close> lies between \<open>2^54\<close> and
  \<open>2^55\<close>, where the doubles are the multiples of 4, so the division yields
  \<open>24019198012642652\<close>, and multiplying back by 3 gives \<open>v + 4\<close>: the error exceeds the
  divisor.
\<close>

theorem quantization_bound_counterexample:
  "quantize 72057594037927952 3 = 24019198012642652 \<and>
   dequantize [[[word_of_int (quantize 72057594037927952 3)]]] [[3 :: int64]] =
     Inr [[[72057594037927956]]] \<and>
   \<not> \<bar>sint (72057594037927956 :: int64) - 72057594037927952\<bar> \<le> 3"
  by code_simp

text \<open>
  Claim C5, amended. For a block of integer values of at most \<open>2^53\<close> in absolute
  value (the integers a double holds exactly) and a divisor \<open>d\<close> with \<open>0 < d \<le> 2^53\<close>,
  quantizing every value as \<open>dwt\<close> does and dequantizing the block of 64-bit integers
  with the table that holds \<open>d\<close> everywhere lands within \<open>d\<close> of every value; the
  products do not wrap.
\<close>

theorem quantization_bound:
  assumes "dims r c vs" "0 < r"
    and "\<forall>row\<in>set vs. \<forall>v\<in>set row. \<bar>v\<bar> \<le> 2 ^ 53"
    and "0 < d" "d \<le> 2 ^ 53"
  shows "\<exists>out. dequantize [map (map (\<lambda>v. word_of_int (quantize (of_int v) d))) vs]
                  (replicate r (replicate c (word_of_int d))) = Inr [out :: int64 list list] \<and>
               dims r c out \<and>
               (\<forall>i<r. \<forall>j<c. \<bar>sint (out ! i ! j) - vs ! i ! j\<bar> \<le> d)"
proof -
  let ?A = "map (map (\<lambda>v. word_of_int (quantize (of_int v) d) :: int64)) vs"
  let ?B = "replicate r (replicate c (word_of_int d :: int64))"
  let ?out = "map2 (map2 (*)) ?A ?B"
  have dA: "dims r c ?A" using assms(1) by (simp add: dims_def)
  have dB: "dims r c ?B" by (simp add: dims_def)
  have m: "multiply ?A ?B = Inr ?out" using dA dB assms(2) by (rule multiply_same_shape)
  have len: "length vs = r" "\<And>i. i < r \<Longrightarrow> length (vs ! i) = c"
    using assms(1) by (simp_all add: dims_def)
  have dout: "dims r c ?out" using len by (simp add: dims_def)
  have entry: "\<bar>sint (?out ! i ! j) - vs ! i ! j\<bar> \<le> d" if "i < r" "j < c" for i j
  proof -
    let ?v = "vs ! i ! j"
    let ?Q = "quantize (of_int ?v) d"
    have "vs ! i \<in> set vs" "?v \<in> set (vs ! i)" using that len by simp_all
    then have vb: "\<bar>?v\<bar> \<le> 2 ^ 53" using assms(3) by blast
    have near: "\<bar>?Q * d - ?v\<bar> \<le> d" using assms(4,5) vb by (rule quantize_near)
    then have "\<bar>?Q * d\<bar> \<le> 2 ^ 53 + 2 ^ 53" using vb assms(5) by linarith
    then have "\<bar>?Q * d\<bar> < 2 ^ 63" by simp
    then have s: "sint (word_of_int ?Q * word_of_int d :: int64) = ?Q * d" by (rule sint_product)
    have "?out ! i ! j = word_of_int ?Q * word_of_int d"
      using that len by simp
    then show ?thesis using s near by simp
  qed
  show ?thesis using m dout entry by simp
qed

theorem quantization_bound_witness:
  "dims 2 2 [[10, - 7], [9007199254740992, 5 :: int]] \<and> (0 :: nat) < 2 \<and>
   list_all (list_all (\<lambda>v. \<bar>v\<bar> \<le> 2 ^ 53)) [[10, - 7], [9007199254740992, 5 :: int]] \<and>
   (0 :: int) < 4 \<and> (4 :: int) \<le> 2 ^ 53 \<and>
   (\<exists>out. dequantize
            [map (map (\<lambda>v. word_of_int (quantize (of_int v) 4)))
               [[10, - 7], [9007199254740992, 5 :: int]]]
            (replicate 2 (replicate 2 (word_of_int 4))) = Inr [out :: int64 list list] \<and>
          dims 2 2 out \<and>
          \<bar>sint (out ! 0 ! 0) - 10\<bar> \<le> 4 \<and> \<bar>sint (out ! 0 ! 1) + 7\<bar> \<le> 4 \<and>
          \<bar>sint (out ! 1 ! 0) - 9007199254740992\<bar> \<le> 4 \<and> \<bar>sint (out ! 1 ! 1) - 5\<bar> \<le> 4)"
proof -
  let ?vs = "[[10, - 7], [9007199254740992, 5 :: int]]"
  have d: "dims 2 2 ?vs" by (simp add: dims_list_all)
  have b: "\<forall>row\<in>set ?vs. \<forall>v\<in>set row. \<bar>v\<bar> \<le> 2 ^ 53" by simp
  have "\<exists>out. dequantize [map (map (\<lambda>v. word_of_int (quantize (of_int v) 4))) ?vs]
                  (replicate 2 (replicate 2 (word_of_int 4))) = Inr [out :: int64 list list] \<and>
               dims 2 2 out \<and>
               (\<forall>i<2. \<forall>j<2. \<bar>sint (out ! i ! j) - ?vs ! i ! j\<bar> \<le> 4)"
    by (rule quantization_bound [OF d _ b]) simp_all
  then obtain out :: "int64 list list"
    where o: "dequantize [map (map (\<lambda>v. word_of_int (quantize (of_int v) 4))) ?vs]
                  (replicate 2 (replicate 2 (word_of_int 4))) = Inr [out]"
      "dims 2 2 out" "\<forall>i<2. \<forall>j<2. \<bar>sint (out ! i ! j) - ?vs ! i ! j\<bar> \<le> 4"
    by blast
  have e: "\<bar>sint (out ! 0 ! 0) - 10\<bar> \<le> 4" "\<bar>sint (out ! 0 ! 1) + 7\<bar> \<le> 4"
    "\<bar>sint (out ! 1 ! 0) - 9007199254740992\<bar> \<le> 4" "\<bar>sint (out ! 1 ! 1) - 5\<bar> \<le> 4"
    using o(3) [rule_format, of 0 0] o(3) [rule_format, of 0 1]
      o(3) [rule_format, of 1 0] o(3) [rule_format, of 1 1]
    by simp_all
  have "dequantize [map (map (\<lambda>v. word_of_int (quantize (of_int v) 4))) ?vs]
          (replicate 2 (replicate 2 (word_of_int 4))) = Inr [out] \<and>
        dims 2 2 out \<and>
        \<bar>sint (out ! 0 ! 0) - 10\<bar> \<le> 4 \<and> \<bar>sint (out ! 0 ! 1) + 7\<bar> \<le> 4 \<and>
        \<bar>sint (out ! 1 ! 0) - 9007199254740992\<bar> \<le> 4 \<and> \<bar>sint (out ! 1 ! 1) - 5\<bar> \<le> 4"
    using o(1,2) e by simp
  then have "\<exists>out. dequantize [map (map (\<lambda>v. word_of_int (quantize (of_int v) 4))) ?vs]
          (replicate 2 (replicate 2 (word_of_int 4))) = Inr [out :: int64 list list] \<and>
        dims 2 2 out \<and>
        \<bar>sint (out ! 0 ! 0) - 10\<bar> \<le> 4 \<and> \<bar>sint (out ! 0 ! 1) + 7\<bar> \<le> 4 \<and>
        \<bar>sint (out ! 1 ! 0) - 9007199254740992\<bar> \<le> 4 \<and> \<bar>sint (out ! 1 ! 1) - 5\<bar> \<le> 4"
    by (rule exI)
  moreover have "list_all (list_all (\<lambda>v. \<bar>v\<bar> \<le> 2 ^ 53)) ?vs" by simp
  ultimately show ?thesis using d by simp
qed

text \<open>
  The product of \<open>dequantize\<close> wraps in the integer type of its operands: on the int16
  blocks of \<open>deserialize\<close> with an int16 table, \<open>8192 * 4\<close> is \<open>-32768\<close>.
\<close>

lemma dequantize_int16_wraps:
  "quantize 32767 4 = 8192 \<and>
   dequantize [[[word_of_int (quantize 32767 4)]]] [[4 :: int16]] = Inr [[[- 32768]]]"
  by code_simp

text \<open>The table is broadcast over the block, and shapes that do not match raise.\<close>

lemma dequantize_broadcasts:
  "dequantize [[[1, 2], [3, 4]], [[5, 6], [7, 8]]] [[10 :: int16]] =
     Inr [[[10, 20], [30, 40]], [[50, 60], [70, 80]]] \<and>
   dequantize [[[1, 2], [3, 4]]] [[10, 100 :: int16]] = Inr [[[10, 200], [30, 400]]] \<and>
   dequantize [[[1, 2], [3, 4]]] [[1, 2, 3 :: int16]] = Inl ValueError"
  by code_simp

end
